theory Spec2Isabelle
  imports Main "HOL-Library.Word" "HOL-Library.Sublist"
begin

unbundle bit_operations_syntax

section \<open>The NERRF tracker: record decoder\<close>

text \<open>
  Embedding of \<^verbatim>\<open>tracker/cmd/tracker/main.go\<close>. Go strings are byte sequences, so the
  string fields of an event are lists of bytes; the three syscall names are literals.
\<close>

type_synonym byte = "8 word"

subsection \<open>The raw event (main.go, type event)\<close>

record event =
  Ts :: "64 word"
  Pid :: "32 word"
  Tid :: "32 word"
  Comm :: "byte list"
  SyscallId :: "32 word"
  RetVal :: "64 word"
  Bytes :: "64 word"
  Path :: "byte list"
  NewPath :: "byte list"

text \<open>
  \<^verbatim>\<open>binary.LittleEndian\<close>: the first byte is the least significant one.
\<close>

fun le_word :: "byte list \<Rightarrow> 'a::len word" where
  "le_word [] = 0"
| "le_word (b # bs) = ucast b OR push_bit 8 (le_word bs)"

text \<open>
  \<^verbatim>\<open>binary.Read\<close> computes the encoded size of the struct (the sum of the field sizes, no
  padding), reads exactly that many bytes from the reader with \<^verbatim>\<open>io.ReadFull\<close> and decodes
  the fields in order. \<^verbatim>\<open>io.ReadFull\<close> fails with \<^verbatim>\<open>EOF\<close> when no byte is available and
  with \<^verbatim>\<open>ErrUnexpectedEOF\<close> when fewer bytes than asked are; bytes beyond the size stay
  unread in the reader.
\<close>

datatype io_error = EOF | ErrUnexpectedEOF

definition event_size :: nat where
  "event_size = 8 + 4 + 4 + 16 + 4 + 8 + 8 + 256 + 256"

definition field :: "nat \<Rightarrow> nat \<Rightarrow> byte list \<Rightarrow> byte list" where
  "field off n data = take n (drop off data)"

definition decode_fields :: "byte list \<Rightarrow> event" where
  "decode_fields d =
     \<lparr> Ts = le_word (field 0 8 d),
       Pid = le_word (field 8 4 d),
       Tid = le_word (field 12 4 d),
       Comm = field 16 16 d,
       SyscallId = le_word (field 32 4 d),
       RetVal = le_word (field 36 8 d),
       Bytes = le_word (field 44 8 d),
       Path = field 52 256 d,
       NewPath = field 308 256 d \<rparr>"

definition binary_Read :: "byte list \<Rightarrow> io_error + event" where
  "binary_Read data =
     (if length data = 0 then Inl EOF
      else if length data < event_size then Inl ErrUnexpectedEOF
      else Inr (decode_fields (take event_size data)))"

subsection \<open>syscallName\<close>

definition syscallName :: "32 word \<Rightarrow> string" where
  "syscallName i =
     (if i = 1 then ''openat''
      else if i = 2 then ''write''
      else if i = 3 then ''rename''
      else ''unknown'')"

subsection \<open>Go's unicode/utf8, as used by sanitizeString\<close>

text \<open>
  The decoder of the standard library, with its tables: \<^verbatim>\<open>first\<close> classifies the leading
  byte (low three bits: the length of the sequence, high four bits: the index of the range
  the second byte has to lie in), \<^verbatim>\<open>acceptRanges\<close> lists those ranges.
\<close>

definition RuneError :: "32 word" where "RuneError = 0xFFFD"
definition RuneSelf :: byte where "RuneSelf = 0x80"
definition maskx :: byte where "maskx = 0x3F"
definition mask2 :: byte where "mask2 = 0x1F"
definition mask3 :: byte where "mask3 = 0x0F"
definition mask4 :: byte where "mask4 = 0x07"
definition locb :: byte where "locb = 0x80"
definition hicb :: byte where "hicb = 0xBF"
definition xx :: byte where "xx = 0xF1"
definition as :: byte where "as = 0xF0"

definition first :: "byte \<Rightarrow> byte" where
  "first b =
     (if b < 0x80 then as
      else if b < 0xC2 then xx
      else if b < 0xE0 then 0x02
      else if b = 0xE0 then 0x13
      else if b < 0xED then 0x03
      else if b = 0xED then 0x23
      else if b < 0xF0 then 0x03
      else if b = 0xF0 then 0x34
      else if b < 0xF4 then 0x04
      else if b = 0xF4 then 0x44
      else xx)"

definition acceptRanges :: "nat \<Rightarrow> byte \<times> byte" where
  "acceptRanges i =
     (if i = 0 then (locb, hicb)
      else if i = 1 then (0xA0, hicb)
      else if i = 2 then (locb, 0x9F)
      else if i = 3 then (0x90, hicb)
      else if i = 4 then (locb, 0x8F)
      else (0, 0))"

definition DecodeRuneInString :: "byte list \<Rightarrow> 32 word \<times> nat" where
  "DecodeRuneInString s =
     (let n = length s in
      if n < 1 then (RuneError, 0)
      else
        let s0 = s ! 0; x = first s0 in
        if x \<ge> as then ((if x = as then ucast s0 else RuneError), 1)
        else
          let sz = unat (x AND 7); accept = acceptRanges (unat (drop_bit 4 x)) in
          if n < sz then (RuneError, 1)
          else
            let s1 = s ! 1 in
            if s1 < fst accept \<or> snd accept < s1 then (RuneError, 1)
            else if sz \<le> 2 then
              (push_bit 6 (ucast (s0 AND mask2)) OR ucast (s1 AND maskx), 2)
            else
              let s2 = s ! 2 in
              if s2 < locb \<or> hicb < s2 then (RuneError, 1)
              else if sz \<le> 3 then
                (push_bit 12 (ucast (s0 AND mask3)) OR push_bit 6 (ucast (s1 AND maskx))
                   OR ucast (s2 AND maskx), 3)
              else
                let s3 = s ! 3 in
                if s3 < locb \<or> hicb < s3 then (RuneError, 1)
                else
                  (push_bit 18 (ucast (s0 AND mask4)) OR push_bit 12 (ucast (s1 AND maskx))
                     OR push_bit 6 (ucast (s2 AND maskx)) OR ucast (s3 AND maskx), 4))"

lemma first_not_as: "\<not> b < RuneSelf \<Longrightarrow> first b \<noteq> as"
  by (simp add: first_def as_def xx_def RuneSelf_def)

lemma first_size: "first b \<noteq> as \<Longrightarrow> first b \<noteq> xx \<Longrightarrow> unat (first b AND 7) \<in> {2, 3, 4}"
  by (auto simp: first_def as_def xx_def split: if_splits)

text \<open>
  \<^verbatim>\<open>utf8.ValidString\<close>; the loop index is kept as the suffix still to be checked. (The
  library first skips blocks of eight ASCII bytes, which the byte-wise loop does as well.)
\<close>

function ValidString :: "byte list \<Rightarrow> bool" where
  "ValidString s =
     (if s = [] then True
      else
        let si = s ! 0 in
        if si < RuneSelf then ValidString (drop 1 s)
        else
          let x = first si in
          if x = xx then False
          else
            let size = unat (x AND 7) in
            if length s < size then False
            else
              let accept = acceptRanges (unat (drop_bit 4 x)) in
              if s ! 1 < fst accept \<or> snd accept < s ! 1 then False
              else if size = 2 then ValidString (drop size s)
              else if s ! 2 < locb \<or> hicb < s ! 2 then False
              else if size = 3 then ValidString (drop size s)
              else if s ! 3 < locb \<or> hicb < s ! 3 then False
              else ValidString (drop size s))"
  by pat_completeness auto
termination
proof (relation "measure length", goal_cases)
  case (5 s si x size' accept)
  then have "unat (first (s ! 0) AND 7) \<in> {2, 3, 4}"
    by (intro first_size first_not_as) simp_all
  with 5 show ?case by auto
qed auto

declare ValidString.simps [simp del]

text \<open>
  \<^verbatim>\<open>strings.TrimRight\<close> with a cutset of one ASCII byte is \<^verbatim>\<open>trimRightByte\<close>.
\<close>

function trimRightByte :: "byte list \<Rightarrow> byte \<Rightarrow> byte list" where
  "trimRightByte s c = (if s \<noteq> [] \<and> last s = c then trimRightByte (butlast s) c else s)"
  by pat_completeness auto
termination
  by (relation "measure (\<lambda>(s, c). length s)") (auto simp: less_Suc_eq_le intro: Suc_pred)

declare trimRightByte.simps [simp del]

text \<open>
  For the proofs: \<open>mb_ok b t\<close> says that the leading byte \<open>b\<close> and the bytes \<open>t\<close> after it
  begin with one complete, well-formed multi-byte sequence. Both the decoder and the
  validator are characterised through it below.
\<close>

definition mb_ok :: "byte \<Rightarrow> byte list \<Rightarrow> bool" where
  "mb_ok b t =
     (first b \<noteq> as \<and> first b \<noteq> xx \<and>
      (let sz = unat (first b AND 7); acc = acceptRanges (unat (drop_bit 4 (first b))) in
       sz \<le> Suc (length t) \<and> fst acc \<le> t ! 0 \<and> t ! 0 \<le> snd acc \<and>
       (2 < sz \<longrightarrow> locb \<le> t ! 1 \<and> t ! 1 \<le> hicb) \<and>
       (3 < sz \<longrightarrow> locb \<le> t ! 2 \<and> t ! 2 \<le> hicb)))"

lemma first_as_iff: "first b = as \<longleftrightarrow> b < RuneSelf"
  by (simp add: first_def as_def xx_def RuneSelf_def)

lemma as_le_first: "as \<le> first b \<longleftrightarrow> first b = as \<or> first b = xx"
  by (auto simp: first_def as_def xx_def split: if_splits)

lemma xx_neq_as: "xx \<noteq> as" by (simp add: xx_def as_def)

lemma snd_Decode_Cons:
  "snd (DecodeRuneInString (b # t)) =
     (if b < RuneSelf then 1 else if mb_ok b t then unat (first b AND 7) else 1)"
proof (cases "first b = as \<or> first b = xx")
  case True
  then show ?thesis
    by (auto simp: DecodeRuneInString_def Let_def as_le_first first_as_iff mb_ok_def xx_neq_as)
next
  case False
  then have nas: "\<not> as \<le> first b" and nlt: "\<not> b < RuneSelf" and nx: "first b \<noteq> xx"
    by (simp_all add: as_le_first first_as_iff)
  from False have "unat (first b AND 7) \<in> {2, 3, 4}" by (intro first_size) simp_all
  then consider "unat (first b AND 7) = 2" | "unat (first b AND 7) = 3" | "unat (first b AND 7) = 4"
    by auto
  then show ?thesis
  proof cases
    case 1
    then show ?thesis using nas nlt nx
      by (auto simp: DecodeRuneInString_def Let_def mb_ok_def not_less Suc_le_eq)
  next
    case 2
    then show ?thesis using nas nlt nx
      by (auto simp: DecodeRuneInString_def Let_def mb_ok_def not_less Suc_le_eq)
  next
    case 3
    then show ?thesis using nas nlt nx
      by (auto simp: DecodeRuneInString_def Let_def mb_ok_def not_less Suc_le_eq)
  qed
qed

lemma first_cases:
  obtains (ascii) "b < RuneSelf" "first b = as"
  | (bad) "\<not> b < RuneSelf" "first b = xx"
  | (two) "\<not> b < RuneSelf" "first b \<noteq> xx" "\<not> as \<le> first b" "unat (first b AND 7) = 2"
  | (three) "\<not> b < RuneSelf" "first b \<noteq> xx" "\<not> as \<le> first b" "unat (first b AND 7) = 3"
  | (four) "\<not> b < RuneSelf" "first b \<noteq> xx" "\<not> as \<le> first b" "unat (first b AND 7) = 4"
proof (cases "first b = as \<or> first b = xx")
  case True
  then show ?thesis using ascii bad by (auto simp: first_as_iff xx_neq_as)
next
  case False
  then have "unat (first b AND 7) \<in> {2, 3, 4}" by (intro first_size) simp_all
  with False show ?thesis using two three four
    by (auto simp: as_le_first first_as_iff)
qed

lemma fst_Decode_Cons:
  "fst (DecodeRuneInString (b # t)) = RuneError \<and> snd (DecodeRuneInString (b # t)) = 1
     \<longleftrightarrow> \<not> b < RuneSelf \<and> \<not> mb_ok b t"
proof (cases b rule: first_cases)
  case ascii
  have "(ucast b :: 32 word) \<noteq> RuneError"
  proof
    assume "(ucast b :: 32 word) = RuneError"
    then have "unat (ucast b :: 32 word) = unat RuneError" by simp
    then have "take_bit 32 (unat b) = 0xFFFD" by (simp add: RuneError_def unsigned_ucast_eq)
    moreover have "unat b < 256" using unsigned_less[of b, where ?'a = nat] by simp
    then have "take_bit 32 (unat b) = unat b" by (simp add: take_bit_nat_eq_self)
    ultimately show False using \<open>unat b < 256\<close> by simp
  qed
  with ascii show ?thesis by (simp add: DecodeRuneInString_def Let_def)
next
  case bad
  then show ?thesis by (simp add: DecodeRuneInString_def Let_def mb_ok_def as_le_first xx_neq_as)
next
  case two
  then show ?thesis using snd_Decode_Cons[of b t]
    by (auto simp: DecodeRuneInString_def Let_def mb_ok_def not_less Suc_le_eq)
next
  case three
  then show ?thesis using snd_Decode_Cons[of b t]
    by (auto simp: DecodeRuneInString_def Let_def mb_ok_def not_less Suc_le_eq)
next
  case four
  then show ?thesis using snd_Decode_Cons[of b t]
    by (auto simp: DecodeRuneInString_def Let_def mb_ok_def not_less Suc_le_eq)
qed

lemma ValidString_Cons:
  "ValidString (b # t) =
     (if b < RuneSelf then ValidString t
      else mb_ok b t \<and> ValidString (drop (unat (first b AND 7) - 1) t))"
proof (cases b rule: first_cases)
  case ascii
  then show ?thesis by (subst ValidString.simps) simp
next
  case bad
  then show ?thesis by (subst ValidString.simps) (simp add: mb_ok_def)
next
  case two
  then show ?thesis
    by (subst ValidString.simps) (auto simp: Let_def mb_ok_def not_less Suc_le_eq)
next
  case three
  then show ?thesis
    by (subst ValidString.simps) (auto simp: Let_def mb_ok_def not_less Suc_le_eq)
next
  case four
  then show ?thesis
    by (subst ValidString.simps) (auto simp: Let_def mb_ok_def not_less Suc_le_eq)
qed

lemma Decode_width_pos: "s \<noteq> [] \<Longrightarrow> 0 < snd (DecodeRuneInString s)"
proof (cases s)
  case (Cons b t)
  show ?thesis unfolding Cons snd_Decode_Cons
    by (cases b rule: first_cases) (auto simp: mb_ok_def)
qed simp

lemma Decode_width_le: "snd (DecodeRuneInString s) \<le> length s"
proof (cases s)
  case Nil
  then show ?thesis by (simp add: DecodeRuneInString_def)
next
  case (Cons b t)
  show ?thesis unfolding Cons snd_Decode_Cons
    by (auto simp: mb_ok_def Let_def)
qed

text \<open>
  \<^verbatim>\<open>strings.ToValidUTF8\<close>. Its first loop ranges over the runes of \<open>s\<close> and looks for the
  first position that decodes to \<^verbatim>\<open>RuneError\<close> with width 1; when there is none, \<open>s\<close> is
  returned as it is. Otherwise the bytes before that position are copied and the second loop
  rewrites the rest: an ASCII byte and a well-formed sequence are copied, and a byte that
  does not decode is replaced, once for each run of such bytes.
\<close>

function ToValidUTF8_scan :: "byte list \<Rightarrow> nat option" where
  "ToValidUTF8_scan s =
     (if s = [] then None
      else
        let c = fst (DecodeRuneInString s); w = snd (DecodeRuneInString s) in
        if c \<noteq> RuneError then map_option (\<lambda>i. w + i) (ToValidUTF8_scan (drop w s))
        else
          let wid = snd (DecodeRuneInString s) in
          if wid = 1 then Some 0
          else map_option (\<lambda>i. w + i) (ToValidUTF8_scan (drop w s)))"
  by pat_completeness auto
termination
  by (relation "measure length") (auto simp: Decode_width_pos)

declare ToValidUTF8_scan.simps [simp del]

function ToValidUTF8_loop :: "byte list \<Rightarrow> byte list \<Rightarrow> bool \<Rightarrow> byte list" where
  "ToValidUTF8_loop s replacement invalid =
     (if s = [] then []
      else
        let c = s ! 0 in
        if c < RuneSelf then c # ToValidUTF8_loop (drop 1 s) replacement False
        else
          let wid = snd (DecodeRuneInString s) in
          if wid = 1 then
            (if \<not> invalid then replacement @ ToValidUTF8_loop (drop 1 s) replacement True
             else ToValidUTF8_loop (drop 1 s) replacement True)
          else take wid s @ ToValidUTF8_loop (drop wid s) replacement False)"
  by pat_completeness auto
termination
  by (relation "measure (\<lambda>(s, r, i). length s)") (auto simp: Decode_width_pos)

declare ToValidUTF8_loop.simps [simp del]

definition ToValidUTF8 :: "byte list \<Rightarrow> byte list \<Rightarrow> byte list" where
  "ToValidUTF8 s replacement =
     (case ToValidUTF8_scan s of
        None \<Rightarrow> s
      | Some i \<Rightarrow> take i s @ ToValidUTF8_loop (drop i s) replacement False)"

subsection \<open>sanitizeString\<close>

definition sanitizeString :: "byte list \<Rightarrow> byte list" where
  "sanitizeString b =
     (let s = trimRightByte b 0 in
      if \<not> ValidString s then ToValidUTF8 s [0x3F] else s)"

section \<open>Timestamps\<close>

text \<open>
  A \<^verbatim>\<open>time.Time\<close> is kept as the seconds since the Unix epoch and the nanoseconds within the
  second; \<^verbatim>\<open>timestamppb.New\<close> copies exactly these two numbers (\<^verbatim>\<open>t.Unix()\<close>,
  \<^verbatim>\<open>t.Nanosecond()\<close>). The range of Go's internal second counter (years beyond 10^11) is not
  modelled. Go's integer division truncates towards zero.
\<close>

record Time =
  sec :: int
  nsec :: int

record Timestamp =
  Seconds :: int
  Nanos :: int

definition quot :: "int \<Rightarrow> int \<Rightarrow> int" where
  "quot a b = sgn a * sgn b * (\<bar>a\<bar> div \<bar>b\<bar>)"

definition rem :: "int \<Rightarrow> int \<Rightarrow> int" where
  "rem a b = a - b * quot a b"

text \<open>\<^verbatim>\<open>func (t Time) Add(d Duration) Time\<close>, with \<open>d\<close> the value of the 64-bit duration.\<close>

definition Time_Add :: "Time \<Rightarrow> int \<Rightarrow> Time" where
  "Time_Add t d =
     (let dsec = quot d 1000000000;
          ns = nsec t + rem d 1000000000
      in if ns \<ge> 1000000000 then \<lparr> sec = sec t + (dsec + 1), nsec = ns - 1000000000 \<rparr>
         else if ns < 0 then \<lparr> sec = sec t + (dsec - 1), nsec = ns + 1000000000 \<rparr>
         else \<lparr> sec = sec t + dsec, nsec = ns \<rparr>)"

definition timestamppb_New :: "Time \<Rightarrow> Timestamp" where
  "timestamppb_New t = \<lparr> Seconds = sec t, Nanos = nsec t \<rparr>"

text \<open>
  \<^verbatim>\<open>time.Duration(e.Ts) * time.Nanosecond\<close>: the conversion from \<^verbatim>\<open>uint64\<close> to the signed
  64-bit \<^verbatim>\<open>Duration\<close> keeps the bits, and \<^verbatim>\<open>time.Nanosecond\<close> is 1.
\<close>

definition Duration_ns :: "64 word \<Rightarrow> int" where
  "Duration_ns ts = sint (ts * 1)"

definition eventTime :: "Time \<Rightarrow> 64 word \<Rightarrow> Time" where
  "eventTime boot ts = Time_Add boot (Duration_ns ts)"

section \<open>Events, batches and subscriber channels\<close>

text \<open>
  The generated protobuf package is not part of the sources read here; of its enumeration
  of open flags the tracker uses \<^verbatim>\<open>Event_O_RDONLY\<close> only.
\<close>

datatype Event_OpenFlags = Event_O_RDONLY | Event_OpenFlags_other nat

record Event =
  ev_Ts :: Timestamp
  ev_Pid :: "32 word"
  ev_Tid :: "32 word"
  ev_Comm :: "byte list"
  ev_Syscall :: string
  ev_Path :: "byte list"
  ev_NewPath :: "byte list"
  ev_RetVal :: "64 word"
  ev_Bytes :: "64 word"
  ev_Flags :: Event_OpenFlags

record EventBatch =
  Events :: "Event list"

definition pbEvent :: "Time \<Rightarrow> event \<Rightarrow> Event" where
  "pbEvent boot e =
     \<lparr> ev_Ts = timestamppb_New (eventTime boot (Ts e)),
       ev_Pid = Pid e,
       ev_Tid = Tid e,
       ev_Comm = sanitizeString (Comm e),
       ev_Syscall = syscallName (SyscallId e),
       ev_Path = sanitizeString (Path e),
       ev_NewPath = sanitizeString (NewPath e),
       ev_RetVal = RetVal e,
       ev_Bytes = Bytes e,
       ev_Flags = Event_O_RDONLY \<rparr>"

definition batch_of :: "Time \<Rightarrow> event \<Rightarrow> EventBatch" where
  "batch_of boot e = \<lparr> Events = [pbEvent boot e] \<rparr>"

text \<open>
  A buffered Go channel: the pending values, the capacity given to \<^verbatim>\<open>make\<close> and whether
  \<^verbatim>\<open>close\<close> has been called. A channel value is a reference; references are numbers and the
  store \<open>chans\<close> maps them to the channel's state.
\<close>

record chan =
  buf :: "EventBatch list"
  cap :: nat
  closed :: bool

type_synonym chan_ref = nat

datatype panic = SendOnClosedChannel | CloseOfClosedChannel | CloseOfNilChannel

text \<open>
  The process: the \<^verbatim>\<open>server\<close> struct (the keys of the \<^verbatim>\<open>clients\<close> map in some iteration
  order, \<^verbatim>\<open>bootTime\<close>), the store of channels, what each session has written to its gRPC
  stream, the batch a session holds when \<^verbatim>\<open>stream.Send\<close> has returned an error (the session
  is then on its way out of \<^verbatim>\<open>StreamEvents\<close>), the next unused reference and whether
  \<^verbatim>\<open>broadcastEvents\<close> has returned.
\<close>

record state =
  clients :: "chan_ref list"
  bootTime :: Time
  chans :: "chan_ref \<rightharpoonup> chan"
  streamed :: "chan_ref \<Rightarrow> EventBatch list"
  unsent :: "chan_ref \<rightharpoonup> EventBatch"
  next_ref :: chan_ref
  stopped :: bool

text \<open>
  The \<^verbatim>\<open>select\<close> with a send case and a \<^verbatim>\<open>default\<close>: a send on a closed channel panics, a
  send on a channel with room appends, anything else takes the default branch.
\<close>

definition select_send :: "chan_ref \<Rightarrow> EventBatch \<Rightarrow> (chan_ref \<rightharpoonup> chan) \<Rightarrow> panic + (chan_ref \<rightharpoonup> chan)" where
  "select_send ch batch h =
     (case h ch of
        None \<Rightarrow> Inr h
      | Some c \<Rightarrow>
          if closed c then Inl SendOnClosedChannel
          else if length (buf c) < cap c then Inr (h(ch \<mapsto> c\<lparr>buf := buf c @ [batch]\<rparr>))
          else Inr h)"

text \<open>The loop \<^verbatim>\<open>for ch := range s.clients\<close> of \<^verbatim>\<open>broadcastEvents\<close>, run under the mutex.\<close>

fun broadcast :: "chan_ref list \<Rightarrow> EventBatch \<Rightarrow> (chan_ref \<rightharpoonup> chan) \<Rightarrow> panic + (chan_ref \<rightharpoonup> chan)" where
  "broadcast [] batch h = Inr h"
| "broadcast (ch # rest) batch h =
     (case select_send ch batch h of
        Inl p \<Rightarrow> Inl p
      | Inr h' \<Rightarrow> broadcast rest batch h')"

text \<open>
  One iteration of \<^verbatim>\<open>broadcastEvents\<close> after a successful read: a record that does not decode
  is logged and the loop continues with the state as it was.
\<close>

definition iteration :: "state \<Rightarrow> byte list \<Rightarrow> panic + state" where
  "iteration s raw =
     (case binary_Read raw of
        Inl err \<Rightarrow> Inr s
      | Inr e \<Rightarrow>
          (case broadcast (clients s) (batch_of (bootTime s) e) (chans s) of
             Inl p \<Rightarrow> Inl p
           | Inr h \<Rightarrow> Inr (s\<lparr>chans := h\<rparr>)))"

subsection \<open>Sessions (StreamEvents)\<close>

text \<open>
  \<open>register\<close> is the head of \<^verbatim>\<open>StreamEvents\<close>: a new channel of capacity 100 is made and
  entered in the map. \<open>unregister\<close> is the deferred function: the channel is deleted from the
  map and closed; closing a closed channel panics. \<open>session_recv\<close> is the first case of the
  session's \<^verbatim>\<open>select\<close>: a batch is taken from the channel and sent on the stream; when
  \<^verbatim>\<open>stream.Send\<close> returns an error the batch is not streamed and the session returns, which
  leaves it in the map until its deferred function has run. Whether the send succeeds is
  decided by the transport and is a parameter here.
\<close>

definition register :: "state \<Rightarrow> state" where
  "register s =
     (let clientChan = next_ref s in
      s\<lparr> chans := (chans s)(clientChan \<mapsto> \<lparr> buf = [], cap = 100, closed = False \<rparr>),
         unsent := (unsent s)(clientChan := None),
         next_ref := Suc clientChan,
         clients := clientChan # clients s \<rparr>)"

definition close_chan :: "chan_ref \<Rightarrow> (chan_ref \<rightharpoonup> chan) \<Rightarrow> panic + (chan_ref \<rightharpoonup> chan)" where
  "close_chan ch h =
     (case h ch of
        None \<Rightarrow> Inl CloseOfNilChannel
      | Some c \<Rightarrow> if closed c then Inl CloseOfClosedChannel else Inr (h(ch \<mapsto> c\<lparr>closed := True\<rparr>)))"

definition unregister :: "state \<Rightarrow> chan_ref \<Rightarrow> panic + state" where
  "unregister s clientChan =
     (let s' = s\<lparr>clients := removeAll clientChan (clients s)\<rparr> in
      case close_chan clientChan (chans s') of
        Inl p \<Rightarrow> Inl p
      | Inr h \<Rightarrow> Inr (s'\<lparr>chans := h\<rparr>))"

definition session_recv :: "state \<Rightarrow> chan_ref \<Rightarrow> bool \<Rightarrow> state" where
  "session_recv s clientChan send_ok =
     (case chans s clientChan of
        None \<Rightarrow> s
      | Some c \<Rightarrow>
          (case buf c of
             [] \<Rightarrow> s
           | batch # rest \<Rightarrow>
               if send_ok then
                 s\<lparr> chans := (chans s)(clientChan \<mapsto> c\<lparr>buf := rest\<rparr>),
                    streamed := (streamed s)(clientChan := streamed s clientChan @ [batch]) \<rparr>
               else
                 s\<lparr> chans := (chans s)(clientChan \<mapsto> c\<lparr>buf := rest\<rparr>),
                    unsent := (unsent s)(clientChan \<mapsto> batch) \<rparr>))"

subsection \<open>Runs of the process\<close>

text \<open>
  The mutex makes the broadcast of one event and the registration and removal of a
  subscriber atomic with respect to each other, so a run of the process is a sequence of
  steps: the broadcast loop reads (a record, or an error, on which it returns), a session
  forwards one batch, a session takes one batch and fails to send it, a consumer connects, a
  session ends (its deferred function runs, after the context is done or after a failed
  send). Only sessions whose channel is in the map take steps, and a session whose send has
  failed takes no batch any more.
\<close>

datatype step =
    Read "unit + byte list"
  | Deliver chan_ref
  | SendFails chan_ref
  | Join
  | Leave chan_ref

fun do_step :: "state \<Rightarrow> step \<Rightarrow> panic + state" where
  "do_step s (Read (Inl err)) = Inr (s\<lparr>stopped := True\<rparr>)"
| "do_step s (Read (Inr raw)) = (if stopped s then Inr s else iteration s raw)"
| "do_step s (Deliver ch) =
     Inr (if ch \<in> set (clients s) \<and> unsent s ch = None then session_recv s ch True else s)"
| "do_step s (SendFails ch) =
     Inr (if ch \<in> set (clients s) \<and> unsent s ch = None then session_recv s ch False else s)"
| "do_step s Join = Inr (register s)"
| "do_step s (Leave ch) = (if ch \<in> set (clients s) then unregister s ch else Inr s)"

fun run :: "state \<Rightarrow> step list \<Rightarrow> panic + state" where
  "run s [] = Inr s"
| "run s (a # rest) = (case do_step s a of Inl p \<Rightarrow> Inl p | Inr s' \<Rightarrow> run s' rest)"

text \<open>
  \<^verbatim>\<open>main\<close>: the server starts with an empty map and the boot time computed from the wall
  clock and the monotonic clock, then the broadcast loop and the gRPC server are started.
  The two fields of the \<^verbatim>\<open>unix.Timespec\<close> are 64-bit integers, \<^verbatim>\<open>monoNs\<close> is computed in
  64 bits and wraps around, and so does its negation as a \<^verbatim>\<open>Duration\<close>.
\<close>

definition main_init :: "Time \<Rightarrow> 64 word \<Rightarrow> 64 word \<Rightarrow> state" where
  "main_init now ts_Sec ts_Nsec =
     (let monoNs = ts_Sec * 1000000000 + ts_Nsec in
      \<lparr> clients = [], bootTime = Time_Add now (sint (- monoNs * 1)), chans = Map.empty,
        streamed = (\<lambda>_. []), unsent = Map.empty, next_ref = 0, stopped = False \<rparr>)"

section \<open>Notions used in the statements\<close>

text \<open>\<^verbatim>\<open>t.UnixNano()\<close>: the nanoseconds since the epoch.\<close>

definition UnixNano :: "Time \<Rightarrow> int" where
  "UnixNano t = sec t * 1000000000 + nsec t"

text \<open>
  The invariant of the registry: the keys of the map are distinct references that have been
  handed out, and each of them is an open channel of capacity 100 holding no more than
  that. \<open>enqueue\<close> is what a non-blocking send does to an open channel.
\<close>

definition chan_ok :: "state \<Rightarrow> chan_ref \<Rightarrow> bool" where
  "chan_ok s ch =
     (ch < next_ref s \<and>
      (case chans s ch of
         None \<Rightarrow> False
       | Some c \<Rightarrow> \<not> closed c \<and> cap c = 100 \<and> length (buf c) \<le> cap c))"

definition registry_ok :: "state \<Rightarrow> bool" where
  "registry_ok s = (distinct (clients s) \<and> (\<forall>ch \<in> set (clients s). chan_ok s ch))"

definition enqueue :: "EventBatch \<Rightarrow> chan \<Rightarrow> chan" where
  "enqueue batch c = (if length (buf c) < cap c then c\<lparr>buf := buf c @ [batch]\<rparr> else c)"

text \<open>
  For the order of delivery: \<open>decoded\<close> lists the batches that the broadcast loop builds
  from the reads of a run, in the order of the reads, up to the read error on which the loop
  returns. \<open>placed\<close> is everything that was put in the queue of a subscriber: what its
  session has forwarded to the stream, then the batch it took and failed to send, if there
  is one, then what is pending in the channel.
  \<open>never_full\<close> says that in a run no send of a decoded event finds the channel without
  room.
\<close>

fun decoded :: "Time \<Rightarrow> bool \<Rightarrow> step list \<Rightarrow> EventBatch list" where
  "decoded boot stop [] = []"
| "decoded boot stop (Read (Inl err) # rest) = decoded boot True rest"
| "decoded boot stop (Read (Inr raw) # rest) =
     (if stop then decoded boot stop rest
      else case binary_Read raw of
             Inl err \<Rightarrow> decoded boot stop rest
           | Inr e \<Rightarrow> batch_of boot e # decoded boot stop rest)"
| "decoded boot stop (Deliver ch # rest) = decoded boot stop rest"
| "decoded boot stop (SendFails ch # rest) = decoded boot stop rest"
| "decoded boot stop (Join # rest) = decoded boot stop rest"
| "decoded boot stop (Leave ch # rest) = decoded boot stop rest"

definition placed :: "state \<Rightarrow> chan_ref \<Rightarrow> EventBatch list" where
  "placed s ch =
     streamed s ch @ (case unsent s ch of None \<Rightarrow> [] | Some batch \<Rightarrow> [batch])
       @ (case chans s ch of None \<Rightarrow> [] | Some c \<Rightarrow> buf c)"

definition has_room :: "state \<Rightarrow> chan_ref \<Rightarrow> bool" where
  "has_room s ch = (case chans s ch of None \<Rightarrow> False | Some c \<Rightarrow> length (buf c) < cap c)"

fun never_full :: "state \<Rightarrow> chan_ref \<Rightarrow> step list \<Rightarrow> bool" where
  "never_full s ch [] = True"
| "never_full s ch (a # rest) =
     ((case a of
         Read (Inr raw) \<Rightarrow> stopped s \<or> isl (binary_Read raw) \<or> has_room s ch
       | _ \<Rightarrow> True) \<and>
      (case do_step s a of Inl p \<Rightarrow> True | Inr s' \<Rightarrow> never_full s' ch rest))"

section \<open>The interleaving of the broadcast loop and the sessions\<close>

text \<open>
  The statements of \<^verbatim>\<open>broadcastEvents\<close> and \<^verbatim>\<open>StreamEvents\<close> as the steps of concurrent
  threads. The broadcast loop is at its read, before \<^verbatim>\<open>s.mu.Lock()\<close> with a batch, inside
  the \<^verbatim>\<open>range\<close> loop with the keys visited so far, at the \<^verbatim>\<open>select\<close> for one key, or it has
  returned. A session has made its channel, holds the mutex before and after the insertion
  into the map, runs its loop, has left the loop (the context is done, or a send on the
  stream has failed), holds the mutex before and after \<^verbatim>\<open>delete\<close>, has released it, and has
  closed its channel. \<^verbatim>\<open>Lock\<close> is enabled only when nobody holds the mutex. A panic stops
  the process.
\<close>

datatype owner = Broadcaster | Session chan_ref

datatype bpc =
    B_read
  | B_lock EventBatch
  | B_range EventBatch "chan_ref list"
  | B_send EventBatch "chan_ref list" chan_ref
  | B_done

datatype spc =
    S_none | S_made | S_reg_locked | S_reg_inserted | S_loop
  | S_exit | S_unreg_locked | S_unreg_deleted | S_unreg_unlocked | S_closed

record proc =
  shared :: state
  mu :: "owner option"
  bpc :: bpc
  spc :: "chan_ref \<Rightarrow> spc"
  crashed :: "panic option"




text \<open>
  The invariant of the interleaving: the channels in the map belong to sessions between
  their insertion and their \<^verbatim>\<open>delete\<close>, the channel of a session stays open until the session
  closes it, the mutex has one holder, the key the broadcast loop is about to send to is
  in the map and has not been visited, and a session that has not left its loop holds no
  batch that it failed to send.
\<close>

definition in_map_pcs :: "spc set" where
  "in_map_pcs = {S_reg_inserted, S_loop, S_exit, S_unreg_locked}"

definition locked_pcs :: "spc set" where
  "locked_pcs = {S_reg_locked, S_reg_inserted, S_unreg_locked, S_unreg_deleted}"

definition in_loop_pcs :: "spc set" where
  "in_loop_pcs = {S_none, S_made, S_reg_locked, S_reg_inserted, S_loop}"

text \<open>The locations of a session after its \<^verbatim>\<open>delete\<close>: its channel is out of the map for good.\<close>

definition out_pcs :: "spc set" where
  "out_pcs = {S_unreg_deleted, S_unreg_unlocked, S_closed}"

definition is_open :: "(chan_ref \<rightharpoonup> chan) \<Rightarrow> chan_ref \<Rightarrow> bool" where
  "is_open h ch = (case h ch of None \<Rightarrow> False | Some c \<Rightarrow> \<not> closed c)"

definition holds_lock :: "bpc \<Rightarrow> bool" where
  "holds_lock b = (case b of B_range _ _ \<Rightarrow> True | B_send _ _ _ \<Rightarrow> True | _ \<Rightarrow> False)"





section \<open>What valid text and the replacement of invalid bytes mean\<close>

text \<open>
  Independently of Go's tables: the well-formed UTF-8 byte sequences of the Unicode
  Standard (table 3-7). A string is cut, from the left, into well-formed sequences and
  single bytes at which no well-formed sequence starts; the replacement puts one
  replacement string for every maximal run of such bytes and keeps the sequences.
\<close>

definition cont :: "byte \<Rightarrow> bool" where
  "cont b = (0x80 \<le> b \<and> b \<le> 0xBF)"

fun wf_seq :: "byte list \<Rightarrow> bool" where
  "wf_seq [a] = (a \<le> 0x7F)"
| "wf_seq [a, b] = (0xC2 \<le> a \<and> a \<le> 0xDF \<and> cont b)"
| "wf_seq [a, b, c] =
     (((a = 0xE0 \<and> 0xA0 \<le> b \<and> b \<le> 0xBF) \<or>
       (0xE1 \<le> a \<and> a \<le> 0xEC \<and> cont b) \<or>
       (a = 0xED \<and> 0x80 \<le> b \<and> b \<le> 0x9F) \<or>
       (0xEE \<le> a \<and> a \<le> 0xEF \<and> cont b)) \<and> cont c)"
| "wf_seq [a, b, c, d] =
     (((a = 0xF0 \<and> 0x90 \<le> b \<and> b \<le> 0xBF) \<or>
       (0xF1 \<le> a \<and> a \<le> 0xF3 \<and> cont b) \<or>
       (a = 0xF4 \<and> 0x80 \<le> b \<and> b \<le> 0x8F)) \<and> cont c \<and> cont d)"
| "wf_seq _ = False"

definition seq_at :: "byte list \<Rightarrow> nat option" where
  "seq_at s = List.find (\<lambda>k. k \<le> length s \<and> wf_seq (take k s)) [1, 2, 3, 4]"

datatype token = Text "byte list" | Invalid byte

lemma seq_at_pos: "seq_at s = Some k \<Longrightarrow> 0 < k"
  by (auto simp: seq_at_def split: if_splits)

function utf8_tokens :: "byte list \<Rightarrow> token list" where
  "utf8_tokens s =
     (if s = [] then []
      else case seq_at s of
             Some k \<Rightarrow> Text (take k s) # utf8_tokens (drop k s)
           | None \<Rightarrow> Invalid (hd s) # utf8_tokens (tl s))"
  by pat_completeness auto
termination
  by (relation "measure length") (auto dest: seq_at_pos)

declare utf8_tokens.simps [simp del]

fun replace_runs :: "byte list \<Rightarrow> token list \<Rightarrow> byte list" where
  "replace_runs r [] = []"
| "replace_runs r (Text bs # ts) = bs @ replace_runs r ts"
| "replace_runs r [Invalid b] = r"
| "replace_runs r (Invalid b # Invalid b' # ts) = replace_runs r (Invalid b' # ts)"
| "replace_runs r (Invalid b # Text bs # ts) = r @ bs @ replace_runs r ts"

fun is_Invalid :: "token \<Rightarrow> bool" where
  "is_Invalid (Invalid b) = True"
| "is_Invalid (Text bs) = False"

fun token_bytes :: "token \<Rightarrow> byte list" where
  "token_bytes (Text bs) = bs"
| "token_bytes (Invalid b) = [b]"

text \<open>For the proofs: the length that the leading byte announces.\<close>

definition seq_len :: "byte \<Rightarrow> nat" where
  "seq_len b = (if b < 0x80 then 1 else if b < 0xC2 then 0 else if b < 0xE0 then 2
                else if b < 0xF0 then 3 else if b < 0xF5 then 4 else 0)"

definition spec_ok :: "byte \<Rightarrow> byte list \<Rightarrow> bool" where
  "spec_ok b t = (0 < seq_len b \<and> seq_len b \<le> Suc (length t) \<and> wf_seq (take (seq_len b) (b # t)))"

section \<open>Properties of the string functions\<close>

subsection \<open>trimRightByte\<close>

lemma trimRightByte_snoc:
  "trimRightByte (s @ [x]) c = (if x = c then trimRightByte s c else s @ [x])"
  by (subst trimRightByte.simps) simp

lemma trimRightByte_Nil [simp]: "trimRightByte [] c = []"
  by (subst trimRightByte.simps) simp

lemma trimRightByte_dropWhile: "trimRightByte s c = rev (dropWhile (\<lambda>x. x = c) (rev s))"
  by (induction s rule: rev_induct) (simp_all add: trimRightByte_snoc)

lemma trimRightByte_replicate: "\<exists>n. s = trimRightByte s c @ replicate n c"
proof (induction s rule: rev_induct)
  case Nil
  then show ?case by simp
next
  case (snoc x xs)
  show ?case
  proof (cases "x = c")
    case True
    from snoc obtain n where "xs = trimRightByte xs c @ replicate n c" ..
    then have "xs @ [x] = trimRightByte xs c @ replicate (Suc n) c"
      using True by (metis append_assoc replicate_append_same replicate_Suc)
    moreover have "trimRightByte (xs @ [x]) c = trimRightByte xs c"
      using True by (simp add: trimRightByte_snoc)
    ultimately show ?thesis by metis
  next
    case False
    then have "xs @ [x] = trimRightByte (xs @ [x]) c @ replicate 0 c"
      by (simp add: trimRightByte_snoc)
    then show ?thesis ..
  qed
qed

lemma trimRightByte_last: "trimRightByte s c \<noteq> [] \<Longrightarrow> last (trimRightByte s c) \<noteq> c"
  by (induction s rule: rev_induct) (auto simp: trimRightByte_snoc)

lemma trimRightByte_app:
  assumes "\<exists>y\<in>set ys. y \<noteq> c"
  shows "trimRightByte (xs @ ys) c = xs @ trimRightByte ys c \<and> trimRightByte ys c \<noteq> []"
  using assms
proof (induction ys rule: rev_induct)
  case Nil
  then show ?case by simp
next
  case (snoc y ys)
  show ?case
  proof (cases "y = c")
    case True
    with snoc.prems have "\<exists>y\<in>set ys. y \<noteq> c" by auto
    from snoc.IH[OF this] True show ?thesis
      using trimRightByte_snoc[of "xs @ ys" y c] by (simp add: trimRightByte_snoc)
  next
    case False
    then show ?thesis using trimRightByte_snoc[of "xs @ ys" y c] by (simp add: trimRightByte_snoc)
  qed
qed

subsection \<open>Well-formed sequences and valid strings\<close>

lemma mb_ok_length: "mb_ok b t \<Longrightarrow> unat (first b AND 7) \<le> Suc (length t)"
  by (simp add: mb_ok_def Let_def)

lemma mb_ok_append: "mb_ok b t \<Longrightarrow> mb_ok b (t @ u)"
  by (cases b rule: first_cases) (auto simp: mb_ok_def Let_def nth_append)

lemma mb_ok_take: "mb_ok b t \<Longrightarrow> mb_ok b (take (unat (first b AND 7) - 1) t)"
  by (cases b rule: first_cases) (auto simp: mb_ok_def Let_def)

lemma accept_lo:
  "first b \<noteq> as \<Longrightarrow> first b \<noteq> xx \<Longrightarrow> 0 < fst (acceptRanges (unat (drop_bit 4 (first b))))"
  by (auto simp: first_def as_def xx_def acceptRanges_def locb_def drop_bit_eq_div split: if_splits)

lemma mb_ok_zero: "mb_ok b (t @ 0 # u) \<longleftrightarrow> mb_ok b t"
proof (cases b rule: first_cases)
  case ascii
  then show ?thesis by (auto simp: mb_ok_def Let_def)
next
  case bad
  then show ?thesis by (auto simp: mb_ok_def Let_def)
next
  case two
  then show ?thesis using accept_lo[of b]
    by (cases t) (auto simp: mb_ok_def Let_def nth_append first_as_iff)
next
  case three
  then show ?thesis using accept_lo[of b]
    by (cases t; cases "tl t") (auto simp: mb_ok_def Let_def nth_append first_as_iff locb_def)
next
  case four
  then show ?thesis using accept_lo[of b]
    by (cases t; cases "tl t"; cases "tl (tl t)") (auto simp: mb_ok_def Let_def nth_append first_as_iff locb_def nth_Cons')
qed

lemma ValidString_Nil [simp]: "ValidString []"
  by (subst ValidString.simps) simp

lemma ValidString_append: "ValidString a \<Longrightarrow> ValidString (a @ b) = ValidString b"
proof (induction a rule: length_induct)
  case (1 a)
  show ?case
  proof (cases a)
    case Nil
    then show ?thesis by simp
  next
    case (Cons c t)
    show ?thesis
    proof (cases "c < RuneSelf")
      case True
      with 1 Cons show ?thesis by (simp add: ValidString_Cons)
    next
      case False
      with 1(2) Cons have ok: "mb_ok c t"
        and v: "ValidString (drop (unat (first c AND 7) - 1) t)"
        by (simp_all add: ValidString_Cons)
      from mb_ok_length[OF ok] have le: "unat (first c AND 7) - 1 \<le> length t" by simp
      have "ValidString (drop (unat (first c AND 7) - 1) t @ b) = ValidString b"
        using 1(1) v Cons by simp
      with False ok le Cons show ?thesis
        by (simp add: ValidString_Cons mb_ok_append)
    qed
  qed
qed

lemma ValidString_seq:
  assumes "\<not> c < RuneSelf" "mb_ok c t"
  shows "ValidString (take (unat (first c AND 7)) (c # t))"
proof -
  from assms have "0 < unat (first c AND 7)"
    by (cases c rule: first_cases) (auto simp: mb_ok_def)
  then have "take (unat (first c AND 7)) (c # t) = c # take (unat (first c AND 7) - 1) t"
    by (cases "unat (first c AND 7)") simp_all
  moreover have "drop (unat (first c AND 7) - 1) (take (unat (first c AND 7) - 1) t) = []"
    by simp
  ultimately show ?thesis using assms mb_ok_take[of c t]
    by (simp add: ValidString_Cons del: drop_take)
qed

subsection \<open>The two loops of ToValidUTF8\<close>

lemma mb_ok_size: "mb_ok c t \<Longrightarrow> unat (first c AND 7) \<in> {2, 3, 4}"
  by (rule first_size) (simp_all add: mb_ok_def)

lemma mb_ok_not_ascii: "mb_ok c t \<Longrightarrow> \<not> c < RuneSelf"
  by (simp add: mb_ok_def first_as_iff)

lemma loop_Nil [simp]: "ToValidUTF8_loop [] r iv = []"
  by (subst ToValidUTF8_loop.simps) simp

lemma loop_Cons:
  "ToValidUTF8_loop (c # t) r iv =
     (if c < RuneSelf then c # ToValidUTF8_loop t r False
      else if mb_ok c t then
        c # take (unat (first c AND 7) - 1) t
          @ ToValidUTF8_loop (drop (unat (first c AND 7) - 1) t) r False
      else if iv then ToValidUTF8_loop t r True
      else r @ ToValidUTF8_loop t r True)"
proof (cases "mb_ok c t")
  case True
  from mb_ok_size[OF True] obtain k where k: "unat (first c AND 7) = Suc k" "k \<noteq> 0"
    by (cases "unat (first c AND 7)") auto
  with True mb_ok_not_ascii[OF True] show ?thesis
    by (subst ToValidUTF8_loop.simps) (simp add: snd_Decode_Cons)
next
  case False
  then show ?thesis
    by (subst ToValidUTF8_loop.simps) (simp add: snd_Decode_Cons)
qed

lemma scan_Nil [simp]: "ToValidUTF8_scan [] = None"
  by (subst ToValidUTF8_scan.simps) simp

lemma scan_Cons:
  "ToValidUTF8_scan (c # t) =
     (if c < RuneSelf then map_option Suc (ToValidUTF8_scan t)
      else if mb_ok c t then
        map_option (\<lambda>i. unat (first c AND 7) + i)
          (ToValidUTF8_scan (drop (unat (first c AND 7) - 1) t))
      else Some 0)"
proof (cases "mb_ok c t")
  case True
  from mb_ok_size[OF True] obtain k where k: "unat (first c AND 7) = Suc k" "k \<noteq> 0"
    by (cases "unat (first c AND 7)") auto
  have "\<not> (fst (DecodeRuneInString (c # t)) = RuneError \<and> snd (DecodeRuneInString (c # t)) = 1)"
    using True fst_Decode_Cons[of c t] by blast
  with k True mb_ok_not_ascii[OF True] show ?thesis
    by (subst ToValidUTF8_scan.simps) (auto simp: snd_Decode_Cons Let_def)
next
  case False
  have *: "(fst (DecodeRuneInString (c # t)) = RuneError \<and> snd (DecodeRuneInString (c # t)) = 1)
     \<longleftrightarrow> \<not> c < RuneSelf"
    using False fst_Decode_Cons[of c t] by blast
  have "(+) (Suc 0) = Suc" by auto
  with * False show ?thesis
    by (subst ToValidUTF8_scan.simps) (auto simp: snd_Decode_Cons Let_def)
qed

lemma scan_None_iff: "ToValidUTF8_scan s = None \<longleftrightarrow> ValidString s"
proof (induction s rule: length_induct)
  case (1 s)
  show ?case
  proof (cases s)
    case Nil
    then show ?thesis by simp
  next
    case (Cons c t)
    with 1 show ?thesis
      by (auto simp: scan_Cons ValidString_Cons)
  qed
qed

lemma loop_id: "ValidString s \<Longrightarrow> ToValidUTF8_loop s r iv = s"
proof (induction s arbitrary: iv rule: length_induct)
  case (1 s)
  show ?case
  proof (cases s)
    case Nil
    then show ?thesis by simp
  next
    case (Cons c t)
    with 1 show ?thesis
      by (auto simp: loop_Cons ValidString_Cons)
  qed
qed

lemma loop_append_valid:
  "ValidString a \<Longrightarrow> a \<noteq> [] \<Longrightarrow> ToValidUTF8_loop (a @ b) r iv = a @ ToValidUTF8_loop b r False"
proof (induction a arbitrary: iv rule: length_induct)
  case (1 a)
  from 1(3) obtain c t where Cons: "a = c # t" by (cases a) auto
  show ?case
  proof (cases "c < RuneSelf")
    case True
    with 1 Cons show ?thesis
      by (cases "t = []") (auto simp: loop_Cons ValidString_Cons)
  next
    case False
    with 1(2) Cons have ok: "mb_ok c t"
      and v: "ValidString (drop (unat (first c AND 7) - 1) t)"
      by (simp_all add: ValidString_Cons)
    from mb_ok_length[OF ok] have le: "unat (first c AND 7) - 1 \<le> length t" by simp
    let ?d = "drop (unat (first c AND 7) - 1) t"
    have "ToValidUTF8_loop (?d @ b) r False = ?d @ ToValidUTF8_loop b r False"
    proof (cases "?d = []")
      case True
      then show ?thesis by simp
    next
      case False
      then show ?thesis using 1(1) v Cons by simp
    qed
    with False ok le Cons show ?thesis
      by (simp add: loop_Cons mb_ok_append)
  qed
qed

lemma loop_valid:
  "ValidString r \<Longrightarrow> ValidString (ToValidUTF8_loop s r iv)"
proof (induction s arbitrary: iv rule: length_induct)
  case (1 s)
  show ?case
  proof (cases s)
    case Nil
    then show ?thesis by simp
  next
    case (Cons c t)
    show ?thesis
    proof (cases "\<not> c < RuneSelf \<and> mb_ok c t")
      case True
      let ?k = "unat (first c AND 7)"
      have seq: "ValidString (take ?k (c # t))" using True by (simp add: ValidString_seq)
      have pos: "0 < ?k" using mb_ok_size[of c t] True by auto
      then have tk: "take ?k (c # t) = c # take (?k - 1) t" by (cases ?k) simp_all
      have "ValidString (ToValidUTF8_loop (drop (?k - 1) t) r False)"
        using 1 Cons by simp
      then have "ValidString (take ?k (c # t) @ ToValidUTF8_loop (drop (?k - 1) t) r False)"
        using seq by (simp only: ValidString_append)
      then show ?thesis using True Cons tk by (simp add: loop_Cons)
    next
      case False
      then show ?thesis using 1 Cons
        by (auto simp: loop_Cons ValidString_Cons ValidString_append)
    qed
  qed
qed

lemma scan_Some:
  "ToValidUTF8_scan s = Some i \<Longrightarrow>
     i < length s \<and> ValidString (take i s) \<and>
     (\<exists>c t. drop i s = c # t \<and> \<not> c < RuneSelf \<and> \<not> mb_ok c t)"
proof (induction s arbitrary: i rule: length_induct)
  case (1 s)
  show ?case
  proof (cases s)
    case Nil
    with 1(2) show ?thesis by simp
  next
    case (Cons c t)
    consider (ascii) "c < RuneSelf" | (seq) "\<not> c < RuneSelf" "mb_ok c t"
      | (bad) "\<not> c < RuneSelf" "\<not> mb_ok c t" by blast
    then show ?thesis
    proof cases
      case ascii
      with 1(2) Cons obtain j where j: "ToValidUTF8_scan t = Some j" "i = Suc j"
        by (auto simp: scan_Cons)
      have "length t < length s" using Cons by simp
      from 1(1)[rule_format, OF this j(1)]
      have "j < length t \<and> ValidString (take j t) \<and>
         (\<exists>c' t'. drop j t = c' # t' \<and> \<not> c' < RuneSelf \<and> \<not> mb_ok c' t')" .
      with ascii Cons j(2) show ?thesis by (simp add: ValidString_Cons)
    next
      case seq
      let ?k = "unat (first c AND 7)"
      let ?d = "drop (?k - 1) t"
      from seq 1(2) Cons obtain j where j: "ToValidUTF8_scan ?d = Some j" "i = ?k + j"
        by (auto simp: scan_Cons)
      have pos: "0 < ?k" using mb_ok_size[OF seq(2)] by auto
      have le: "?k - 1 \<le> length t" using mb_ok_length[OF seq(2)] by simp
      have "length ?d < length s" using Cons by simp
      from 1(1)[rule_format, OF this j(1)]
      have IH: "j < length ?d \<and> ValidString (take j ?d) \<and>
         (\<exists>c' t'. drop j ?d = c' # t' \<and> \<not> c' < RuneSelf \<and> \<not> mb_ok c' t')" .
      have tk: "take i s = take ?k (c # t) @ take j ?d"
        using pos le Cons j(2) by (cases ?k) (simp_all add: take_add)
      have dr: "drop i s = drop j ?d"
        using pos Cons j(2) by (cases ?k) (simp_all add: add.commute)
      have "ValidString (take ?k (c # t))" using seq by (rule ValidString_seq)
      then have "ValidString (take i s)" using IH tk by (simp only: ValidString_append)
      moreover have "j < length t - (?k - 1)" using IH by simp
      then have "i < length s" using pos le j(2) \<open>length ?d < length s\<close>
        unfolding Cons by (simp del: One_nat_def)
      ultimately show ?thesis using IH dr by simp
    next
      case bad
      with 1(2) Cons show ?thesis by (simp add: scan_Cons)
    qed
  qed
qed

lemma ToValidUTF8_loop_eq: "ToValidUTF8 s r = ToValidUTF8_loop s r False"
proof (cases "ToValidUTF8_scan s")
  case None
  then have "ValidString s" by (simp add: scan_None_iff)
  with None show ?thesis by (simp add: ToValidUTF8_def loop_id)
next
  case (Some i)
  from scan_Some[OF Some] have v: "ValidString (take i s)" by simp
  show ?thesis
  proof (cases "take i s = []")
    case True
    then have "drop i s = s" by (metis append_Nil append_take_drop_id)
    with True Some show ?thesis by (simp add: ToValidUTF8_def)
  next
    case False
    from loop_append_valid[OF v False, of "drop i s" r False] Some
    show ?thesis by (simp add: ToValidUTF8_def)
  qed
qed

lemma ToValidUTF8_valid: "ValidString r \<Longrightarrow> ValidString (ToValidUTF8 s r)"
  by (simp add: ToValidUTF8_loop_eq loop_valid)

lemma ToValidUTF8_replaces:
  assumes "\<not> ValidString s"
  shows "\<exists>i t. ToValidUTF8_scan s = Some i \<and> ToValidUTF8 s r = take i s @ r @ t"
proof -
  from assms obtain i where i: "ToValidUTF8_scan s = Some i"
    using scan_None_iff[of s] by (cases "ToValidUTF8_scan s") auto
  from scan_Some[OF i] obtain c t where "drop i s = c # t" "\<not> c < RuneSelf" "\<not> mb_ok c t"
    by blast
  then have "ToValidUTF8_loop (drop i s) r False = r @ ToValidUTF8_loop t r True"
    by (simp add: loop_Cons)
  with i show ?thesis by (simp add: ToValidUTF8_def)
qed

lemma loop_zero:
  "ToValidUTF8_loop (a @ 0 # b) r iv = ToValidUTF8_loop a r iv @ 0 # ToValidUTF8_loop b r False"
proof (induction a arbitrary: iv rule: length_induct)
  case (1 a)
  show ?case
  proof (cases a)
    case Nil
    then show ?thesis by (simp add: loop_Cons RuneSelf_def)
  next
    case (Cons c t)
    consider (ascii) "c < RuneSelf" | (seq) "\<not> c < RuneSelf" "mb_ok c t"
      | (bad) "\<not> c < RuneSelf" "\<not> mb_ok c t" by blast
    then show ?thesis
    proof cases
      case ascii
      with 1 Cons show ?thesis by (simp add: loop_Cons)
    next
      case seq
      let ?k = "unat (first c AND 7)"
      have le: "?k - 1 \<le> length t" using mb_ok_length[OF seq(2)] by simp
      have "ToValidUTF8_loop (drop (?k - 1) t @ 0 # b) r False =
            ToValidUTF8_loop (drop (?k - 1) t) r False @ 0 # ToValidUTF8_loop b r False"
        using 1 Cons by simp
      with seq le Cons show ?thesis by (simp add: loop_Cons mb_ok_zero)
    next
      case bad
      with 1 Cons show ?thesis by (simp add: loop_Cons mb_ok_zero)
    qed
  qed
qed

lemma loop_nonempty: "s \<noteq> [] \<Longrightarrow> r \<noteq> [] \<Longrightarrow> ToValidUTF8_loop s r False \<noteq> []"
  by (cases s) (simp_all add: loop_Cons)

subsection \<open>ToValidUTF8 replaces the runs of invalid bytes\<close>

lemma first_ranges:
  "b < 0x80 \<Longrightarrow> first b = as"
  "0x80 \<le> b \<Longrightarrow> b < 0xC2 \<Longrightarrow> first b = xx"
  "0xC2 \<le> b \<Longrightarrow> b < 0xE0 \<Longrightarrow> first b = 0x02"
  "first 0xE0 = 0x13"
  "0xE1 \<le> b \<Longrightarrow> b < 0xED \<Longrightarrow> first b = 0x03"
  "first 0xED = 0x23"
  "0xEE \<le> b \<Longrightarrow> b < 0xF0 \<Longrightarrow> first b = 0x03"
  "first 0xF0 = 0x34"
  "0xF1 \<le> b \<Longrightarrow> b < 0xF4 \<Longrightarrow> first b = 0x04"
  "first 0xF4 = 0x44"
  "0xF5 \<le> b \<Longrightarrow> first b = xx"
  by (auto simp: first_def word_less_nat_alt word_le_nat_alt)

lemma byte_class:
  fixes b :: byte
  obtains "b < 0x80" | "0x80 \<le> b" "b < 0xC2" | "0xC2 \<le> b" "b < 0xE0" | "b = 0xE0"
  | "0xE1 \<le> b" "b < 0xED" | "b = 0xED" | "0xEE \<le> b" "b < 0xF0" | "b = 0xF0"
  | "0xF1 \<le> b" "b < 0xF4" | "b = 0xF4" | "0xF5 \<le> b"
proof -
  have "unat b < 128 \<or> (128 \<le> unat b \<and> unat b < 194) \<or> (194 \<le> unat b \<and> unat b < 224) \<or>
        unat b = 224 \<or> (225 \<le> unat b \<and> unat b < 237) \<or> unat b = 237 \<or>
        (238 \<le> unat b \<and> unat b < 240) \<or> unat b = 240 \<or> (241 \<le> unat b \<and> unat b < 244) \<or>
        unat b = 244 \<or> 245 \<le> unat b" by arith
  then show ?thesis using that
    by (auto simp: word_less_nat_alt word_le_nat_alt word_unat_eq_iff)
qed

lemmas wb = word_less_nat_alt word_le_nat_alt word_unat_eq_iff

lemma wf_seq_length: "wf_seq s \<Longrightarrow> s \<noteq> [] \<and> length s = seq_len (hd s)"
proof (induction s rule: wf_seq.induct)
  case (1 a)
  then show ?case by (simp add: seq_len_def wb)
next
  case (2 a b)
  then show ?case by (simp add: seq_len_def wb)
next
  case (3 a b c)
  then show ?case by (auto simp: seq_len_def wb)
next
  case (4 a b c d)
  then show ?case by (auto simp: seq_len_def wb)
qed simp_all

lemma seq_at_seq_len:
  "seq_at s = (if 0 < seq_len (hd s) \<and> seq_len (hd s) \<le> length s \<and> wf_seq (take (seq_len (hd s)) s)
               then Some (seq_len (hd s)) else None)"
proof (cases "s = []")
  case True
  then show ?thesis by (simp add: seq_at_def)
next
  case False
  let ?P = "\<lambda>k. k \<le> length s \<and> wf_seq (take k s)"
  have uniq: "k = seq_len (hd s)" if "?P k" for k
  proof -
    from that have w: "wf_seq (take k s)" and kl: "k \<le> length s" by blast+
    from wf_seq_length[OF w]
    have ne: "take k s \<noteq> []" and len: "length (take k s) = seq_len (hd (take k s))"
      by blast+
    from ne have "hd (take k s) = hd s" by (cases s; cases k) simp_all
    moreover from kl have "length (take k s) = k" by simp
    ultimately show ?thesis using len by simp
  qed
  define ks :: "nat list" where "ks = [1, 2, 3, 4]"
  have range: "seq_len (hd s) \<in> set ks \<or> seq_len (hd s) = 0"
    by (simp add: seq_len_def ks_def)
  have at: "seq_at s = List.find ?P ks" by (simp add: seq_at_def ks_def)
  show ?thesis
  proof (cases "0 < seq_len (hd s) \<and> ?P (seq_len (hd s))")
    case True
    with range have "\<exists>k \<in> set ks. ?P k" by auto
    then have "List.find ?P ks \<noteq> None" unfolding find_None_iff by blast
    then obtain k where k: "List.find ?P ks = Some k" by blast
    then have "?P k" unfolding find_Some_iff by blast
    with uniq have "k = seq_len (hd s)" by blast
    with k True show ?thesis unfolding at by simp
  next
    case False
    have "\<not> ?P k" if "k \<in> set ks" for k
    proof
      assume "?P k"
      with uniq have "k = seq_len (hd s)" by blast
      with \<open>?P k\<close> that False show False by (auto simp: ks_def)
    qed
    then have "List.find ?P ks = None" unfolding find_None_iff by blast
    with False show ?thesis unfolding at by auto
  qed
qed

lemma list_shape4:
  obtains "t = []" | x where "t = [x]" | x y where "t = [x, y]" | x y z u where "t = x # y # z # u"
  by (cases t; cases "tl t"; cases "tl (tl t)") auto

lemma acc_simps:
  "acceptRanges 0 = (0x80, 0xBF)" "acceptRanges (Suc 0) = (0xA0, 0xBF)" "acceptRanges 2 = (0x80, 0x9F)"
  "acceptRanges 3 = (0x90, 0xBF)" "acceptRanges 4 = (0x80, 0x8F)"
  by (simp_all add: acceptRanges_def locb_def hicb_def)

lemma first_consts:
  "unat ((0x02 :: byte) AND 7) = 2" "unat (drop_bit 4 (0x02 :: byte)) = 0"
  "unat ((0x13 :: byte) AND 7) = 3" "unat (drop_bit 4 (0x13 :: byte)) = 1"
  "unat ((0x03 :: byte) AND 7) = 3" "unat (drop_bit 4 (0x03 :: byte)) = 0"
  "unat ((0x23 :: byte) AND 7) = 3" "unat (drop_bit 4 (0x23 :: byte)) = 2"
  "unat ((0x34 :: byte) AND 7) = 4" "unat (drop_bit 4 (0x34 :: byte)) = 3"
  "unat ((0x04 :: byte) AND 7) = 4" "unat (drop_bit 4 (0x04 :: byte)) = 0"
  "unat ((0x44 :: byte) AND 7) = 4" "unat (drop_bit 4 (0x44 :: byte)) = 4"
  "(0x02 :: byte) \<noteq> as" "(0x02 :: byte) \<noteq> xx" "(0x13 :: byte) \<noteq> as" "(0x13 :: byte) \<noteq> xx"
  "(0x03 :: byte) \<noteq> as" "(0x03 :: byte) \<noteq> xx" "(0x23 :: byte) \<noteq> as" "(0x23 :: byte) \<noteq> xx"
  "(0x34 :: byte) \<noteq> as" "(0x34 :: byte) \<noteq> xx" "(0x04 :: byte) \<noteq> as" "(0x04 :: byte) \<noteq> xx"
  "(0x44 :: byte) \<noteq> as" "(0x44 :: byte) \<noteq> xx"
  by (simp_all add: as_def xx_def drop_bit_eq_div)

lemma mb_ok_spec:
  assumes "\<not> b < RuneSelf"
  shows "mb_ok b t = spec_ok b t \<and> (mb_ok b t \<longrightarrow> unat (first b AND 7) = seq_len b)"
proof (cases b rule: byte_class)
  case 1
  with assms show ?thesis by (simp add: RuneSelf_def)
next
  case 2
  then have "first b = xx" "seq_len b = 0" by (simp_all add: first_ranges seq_len_def wb)
  then show ?thesis by (simp add: mb_ok_def spec_ok_def)
next
  case 3
  then have f: "first b = 0x02" "seq_len b = 2" by (simp_all add: first_ranges seq_len_def wb)
  from 3 have r: "0xC2 \<le> b" "b \<le> 0xDF" by (simp_all add: wb)
  show ?thesis
    by (cases t rule: list_shape4)
       (auto simp: mb_ok_def spec_ok_def f r first_consts acc_simps cont_def Let_def)
next
  case 4
  have f: "first b = 0x13" "seq_len b = 3" unfolding 4 by (simp_all add: first_ranges seq_len_def)
  show ?thesis unfolding f mb_ok_def spec_ok_def
    by (cases t rule: list_shape4)
       (auto simp: 4 first_consts acc_simps cont_def Let_def locb_def hicb_def)
next
  case 5
  then have f: "first b = 0x03" "seq_len b = 3" by (simp_all add: first_ranges seq_len_def wb)
  from 5 have r: "0xE1 \<le> b" "b \<le> 0xEC" "b \<noteq> 0xE0" "b \<noteq> 0xED" "\<not> 0xEE \<le> b" by (simp_all add: wb)
  show ?thesis
    by (cases t rule: list_shape4)
       (auto simp: mb_ok_def spec_ok_def f r first_consts acc_simps cont_def Let_def locb_def hicb_def)
next
  case 6
  have f: "first b = 0x23" "seq_len b = 3" unfolding 6 by (simp_all add: first_ranges seq_len_def)
  show ?thesis unfolding f mb_ok_def spec_ok_def
    by (cases t rule: list_shape4)
       (auto simp: 6 first_consts acc_simps cont_def Let_def locb_def hicb_def)
next
  case 7
  then have f: "first b = 0x03" "seq_len b = 3" by (simp_all add: first_ranges seq_len_def wb)
  from 7 have r: "0xEE \<le> b" "b \<le> 0xEF" "b \<noteq> 0xE0" "b \<noteq> 0xED" "\<not> b \<le> 0xEC" by (simp_all add: wb)
  show ?thesis
    by (cases t rule: list_shape4)
       (auto simp: mb_ok_def spec_ok_def f r first_consts acc_simps cont_def Let_def locb_def hicb_def)
next
  case 8
  have f: "first b = 0x34" "seq_len b = 4" unfolding 8 by (simp_all add: first_ranges seq_len_def)
  show ?thesis unfolding f mb_ok_def spec_ok_def
    by (cases t rule: list_shape4)
       (auto simp: 8 first_consts acc_simps cont_def Let_def locb_def hicb_def)
next
  case 9
  then have f: "first b = 0x04" "seq_len b = 4" by (simp_all add: first_ranges seq_len_def wb)
  from 9 have r: "0xF1 \<le> b" "b \<le> 0xF3" "b \<noteq> 0xF0" "b \<noteq> 0xF4" by (simp_all add: wb)
  show ?thesis
    by (cases t rule: list_shape4)
       (auto simp: mb_ok_def spec_ok_def f r first_consts acc_simps cont_def Let_def locb_def hicb_def)
next
  case 10
  have f: "first b = 0x44" "seq_len b = 4" unfolding 10 by (simp_all add: first_ranges seq_len_def)
  show ?thesis unfolding f mb_ok_def spec_ok_def
    by (cases t rule: list_shape4)
       (auto simp: 10 first_consts acc_simps cont_def Let_def locb_def hicb_def)
next
  case 11
  then have "first b = xx" "seq_len b = 0" by (simp_all add: first_ranges seq_len_def wb)
  then show ?thesis by (simp add: mb_ok_def spec_ok_def)
qed

lemma seq_at_Cons:
  "seq_at (b # t) =
     (if b < RuneSelf then Some 1
      else if mb_ok b t then Some (unat (first b AND 7)) else None)"
proof (cases "b < RuneSelf")
  case True
  then have "seq_len b = 1" by (simp add: seq_len_def RuneSelf_def)
  with True show ?thesis by (simp add: seq_at_seq_len RuneSelf_def wb)
next
  case False
  from mb_ok_spec[OF False, of t] False show ?thesis
    by (auto simp: seq_at_seq_len spec_ok_def)
qed

lemma tokens_Nil [simp]: "utf8_tokens [] = []"
  by (subst utf8_tokens.simps) simp

lemma tokens_Cons:
  "utf8_tokens (b # t) =
     (if b < RuneSelf then Text [b] # utf8_tokens t
      else if mb_ok b t then
        Text (b # take (unat (first b AND 7) - 1) t) # utf8_tokens (drop (unat (first b AND 7) - 1) t)
      else Invalid b # utf8_tokens t)"
proof (cases "mb_ok b t")
  case True
  from mb_ok_size[OF True] obtain k where k: "unat (first b AND 7) = Suc k"
    by (cases "unat (first b AND 7)") auto
  with True mb_ok_not_ascii[OF True] show ?thesis
    by (subst utf8_tokens.simps) (simp add: seq_at_Cons)
next
  case False
  then show ?thesis
    by (subst utf8_tokens.simps) (simp add: seq_at_Cons)
qed

lemma tokens_concat: "concat (map token_bytes (utf8_tokens s)) = s"
proof (induction s rule: length_induct)
  case (1 s)
  show ?case
  proof (cases s)
    case Nil
    then show ?thesis by simp
  next
    case (Cons b t)
    have "length (drop (unat (first b AND 7) - 1) t) < length s" using Cons by simp
    with 1 have "concat (map token_bytes (utf8_tokens (drop (unat (first b AND 7) - 1) t))) =
        drop (unat (first b AND 7) - 1) t" by blast
    moreover have "concat (map token_bytes (utf8_tokens t)) = t" using 1 Cons by simp
    ultimately show ?thesis using Cons by (simp add: tokens_Cons)
  qed
qed

lemma tokens_wf: "Text bs \<in> set (utf8_tokens s) \<Longrightarrow> wf_seq bs"
proof (induction s rule: utf8_tokens.induct)
  case (1 s)
  show ?case
  proof (cases "s = []")
    case True
    with 1(3) show ?thesis by simp
  next
    case False
    show ?thesis
    proof (cases "seq_at s")
      case None
      with False 1(1)[OF False None] 1(3) show ?thesis
        by (subst (asm) utf8_tokens.simps) auto
    next
      case (Some k)
      then have "wf_seq (take k s)" unfolding seq_at_def find_Some_iff by blast
      with False Some 1(2)[OF False Some] 1(3) show ?thesis
        by (subst (asm) utf8_tokens.simps) auto
    qed
  qed
qed

lemma replace_runs_Invalid:
  "replace_runs r (Invalid b # ts) = r @ replace_runs r (dropWhile is_Invalid ts)"
proof (induction ts arbitrary: b)
  case Nil
  then show ?case by simp
next
  case (Cons a ts)
  then show ?case by (cases a) simp_all
qed

lemma loop_tokens:
  "ToValidUTF8_loop s r iv =
     replace_runs r (if iv then dropWhile is_Invalid (utf8_tokens s) else utf8_tokens s)"
proof (induction s arbitrary: iv rule: length_induct)
  case (1 s)
  show ?case
  proof (cases s)
    case Nil
    then show ?thesis by simp
  next
    case (Cons b t)
    have t: "ToValidUTF8_loop t r iv' =
        replace_runs r (if iv' then dropWhile is_Invalid (utf8_tokens t) else utf8_tokens t)" for iv'
      using 1 Cons by simp
    have "length (drop (unat (first b AND 7) - 1) t) < length s" using Cons by simp
    with 1 have d: "ToValidUTF8_loop (drop (unat (first b AND 7) - 1) t) r False =
        replace_runs r (utf8_tokens (drop (unat (first b AND 7) - 1) t))" by simp
    show ?thesis unfolding Cons using d
      by (simp add: loop_Cons tokens_Cons t replace_runs_Invalid)
  qed
qed

lemma ToValidUTF8_spec: "ToValidUTF8 s r = replace_runs r (utf8_tokens s)"
  by (simp add: ToValidUTF8_loop_eq loop_tokens)

lemma ValidString_tokens: "ValidString s \<longleftrightarrow> (\<forall>tok \<in> set (utf8_tokens s). \<not> is_Invalid tok)"
proof (induction s rule: length_induct)
  case (1 s)
  show ?case
  proof (cases s)
    case Nil
    then show ?thesis by simp
  next
    case (Cons b t)
    have t: "ValidString t \<longleftrightarrow> (\<forall>tok \<in> set (utf8_tokens t). \<not> is_Invalid tok)"
      using 1 Cons by simp
    have "length (drop (unat (first b AND 7) - 1) t) < length s" using Cons by simp
    with 1 have d: "ValidString (drop (unat (first b AND 7) - 1) t) \<longleftrightarrow>
        (\<forall>tok \<in> set (utf8_tokens (drop (unat (first b AND 7) - 1) t)). \<not> is_Invalid tok)" by simp
    show ?thesis unfolding Cons using d
      by (simp add: ValidString_Cons tokens_Cons t)
  qed
qed

lemma replace_runs_no_Invalid:
  "\<forall>tok \<in> set ts. \<not> is_Invalid tok \<Longrightarrow> replace_runs r ts = concat (map token_bytes ts)"
  by (induction r ts rule: replace_runs.induct) simp_all

lemma sanitizeString_spec:
  "sanitizeString b = replace_runs [0x3F] (utf8_tokens (trimRightByte b 0))"
proof (cases "ValidString (trimRightByte b 0)")
  case True
  then have "replace_runs [0x3F] (utf8_tokens (trimRightByte b 0)) = trimRightByte b 0"
    by (simp add: ValidString_tokens replace_runs_no_Invalid tokens_concat)
  with True show ?thesis by (simp add: sanitizeString_def)
next
  case False
  then show ?thesis by (simp add: sanitizeString_def ToValidUTF8_spec)
qed

section \<open>Properties of the decoder\<close>

lemma binary_Read_short: "length data < event_size \<Longrightarrow> isl (binary_Read data)"
  by (simp add: binary_Read_def)

lemma binary_Read_long:
  "event_size \<le> length data \<Longrightarrow> binary_Read data = Inr (decode_fields (take event_size data))"
  by (auto simp: binary_Read_def event_size_def)

lemma field_take: "off + n \<le> k \<Longrightarrow> field off n (take k data) = field off n data"
  by (simp add: field_def drop_take min_def)

lemma ValidString_placeholder: "ValidString [0x3F]"
  by (simp add: ValidString_Cons RuneSelf_def)

lemma sanitizeString_loop: "sanitizeString b = ToValidUTF8_loop (trimRightByte b 0) [0x3F] False"
  by (simp add: sanitizeString_def Let_def ToValidUTF8_loop_eq loop_id)

lemma pbEvent_strings:
  "event_size \<le> length raw \<Longrightarrow>
   \<exists>e. binary_Read raw = Inr e \<and>
       ev_Comm (pbEvent boot e) = sanitizeString (field 16 16 raw) \<and>
       ev_Path (pbEvent boot e) = sanitizeString (field 52 256 raw) \<and>
       ev_NewPath (pbEvent boot e) = sanitizeString (field 308 256 raw)"
proof -
  assume le: "event_size \<le> length raw"
  have "field 16 16 (take event_size raw) = field 16 16 raw"
    "field 52 256 (take event_size raw) = field 52 256 raw"
    "field 308 256 (take event_size raw) = field 308 256 raw"
    by (rule field_take, simp add: event_size_def)+
  then show ?thesis
    by (simp add: binary_Read_long[OF le] pbEvent_def decode_fields_def)
qed

subsection \<open>Timestamps\<close>

lemma rem_bound: "0 < b \<Longrightarrow> \<bar>rem a b\<bar> < b"
proof -
  assume b: "0 < b"
  have "rem a b = sgn a * (\<bar>a\<bar> mod b)"
  proof -
    have "a = sgn a * \<bar>a\<bar>" by (simp add: mult_sgn_abs)
    then have "rem a b = sgn a * \<bar>a\<bar> - b * (sgn a * sgn b * (\<bar>a\<bar> div \<bar>b\<bar>))"
      by (simp add: rem_def quot_def)
    also have "\<dots> = sgn a * (\<bar>a\<bar> - b * (\<bar>a\<bar> div b))"
      using b by (simp add: algebra_simps)
    also have "\<bar>a\<bar> - b * (\<bar>a\<bar> div b) = \<bar>a\<bar> mod b"
      by (simp add: minus_mult_div_eq_mod)
    finally show ?thesis .
  qed
  moreover have "0 \<le> \<bar>a\<bar> mod b" "\<bar>a\<bar> mod b < b" using b by simp_all
  ultimately show ?thesis by (cases "a = 0 \<or> 0 < a") (auto simp: abs_mult sgn_if)
qed

lemma quot_rem: "b * quot a b + rem a b = a"
  by (simp add: rem_def)

lemma Time_Add_UnixNano: "UnixNano (Time_Add t d) = UnixNano t + d"
proof -
  have "d = 1000000000 * quot d 1000000000 + rem d 1000000000"
    by (simp add: quot_rem)
  then show ?thesis
    by (auto simp: UnixNano_def Time_Add_def Let_def algebra_simps)
qed

lemma Time_Add_normal:
  assumes "0 \<le> nsec t" "nsec t < 1000000000"
  shows "0 \<le> nsec (Time_Add t d) \<and> nsec (Time_Add t d) < 1000000000"
proof -
  have "\<bar>rem d 1000000000\<bar> < 1000000000" by (rule rem_bound) simp
  with assms show ?thesis
    by (auto simp: Time_Add_def Let_def)
qed

lemma Duration_ns_sint: "Duration_ns ts = sint ts"
  by (simp add: Duration_ns_def)

lemma Duration_ns_small: "ts < 2 ^ 63 \<Longrightarrow> Duration_ns ts = uint ts"
proof -
  assume "ts < 2 ^ 63"
  then have "uint ts < 2 ^ 63" by (simp add: word_less_alt)
  moreover
  have "- (2 ^ 63) \<le> uint ts" by (rule order_trans[of _ 0]) simp_all
  ultimately have "signed_take_bit 63 (uint ts) = uint ts"
    by (intro signed_take_bit_int_eq_self) simp_all
  then show ?thesis by (simp add: Duration_ns_def sint_uint)
qed

lemma Duration_ns_large: "\<not> ts < 2 ^ 63 \<Longrightarrow> Duration_ns ts = uint ts - 2 ^ 64"
proof -
  assume "\<not> ts < 2 ^ 63"
  then have lo: "2 ^ 63 \<le> uint ts" by (simp add: word_less_alt not_less)
  have hi: "uint ts < 2 ^ 64" using uint_lt2p[of ts] by simp
  have "(uint ts + 2 ^ 63) mod 2 ^ 64 = (uint ts + 2 ^ 63 - 2 ^ 64 + 2 ^ 64) mod 2 ^ 64"
    by (simp add: ac_simps)
  also have "\<dots> = (uint ts + 2 ^ 63 - 2 ^ 64) mod 2 ^ 64"
    by (rule mod_add_self2)
  also have "\<dots> = uint ts + 2 ^ 63 - 2 ^ 64"
    using lo hi by (intro mod_pos_pos_trivial) simp_all
  finally have "take_bit 64 (uint ts + 2 ^ 63) = uint ts + 2 ^ 63 - 2 ^ 64"
    by (simp add: take_bit_eq_mod)
  then have "signed_take_bit 63 (uint ts) = uint ts - 2 ^ 64"
    by (simp add: signed_take_bit_eq_take_bit_shift)
  then show ?thesis by (simp add: Duration_ns_def sint_uint)
qed

section \<open>Properties of the registry\<close>

lemma select_send_open:
  "h ch = Some c \<Longrightarrow> \<not> closed c \<Longrightarrow> select_send ch batch h = Inr (h(ch \<mapsto> enqueue batch c))"
  by (auto simp: select_send_def enqueue_def fun_upd_idem)

lemma broadcast_open:
  assumes "distinct chs" "\<forall>ch \<in> set chs. \<exists>c. h ch = Some c \<and> \<not> closed c"
  shows "broadcast chs batch h =
           Inr (\<lambda>ch. if ch \<in> set chs then map_option (enqueue batch) (h ch) else h ch)"
  using assms
proof (induction chs arbitrary: h)
  case Nil
  then show ?case by simp
next
  case (Cons a chs)
  from Cons.prems obtain c where c: "h a = Some c" "\<not> closed c" by auto
  let ?h = "h(a \<mapsto> enqueue batch c)"
  have d: "distinct chs" using Cons.prems by simp
  have o: "\<forall>ch \<in> set chs. \<exists>c. ?h ch = Some c \<and> \<not> closed c"
    using Cons.prems by auto
  have "broadcast chs batch ?h =
           Inr (\<lambda>ch. if ch \<in> set chs then map_option (enqueue batch) (?h ch) else ?h ch)"
    by (rule Cons.IH[OF d o])
  moreover have "(\<lambda>ch. if ch \<in> set chs then map_option (enqueue batch) (?h ch) else ?h ch) =
      (\<lambda>ch. if ch \<in> set (a # chs) then map_option (enqueue batch) (h ch) else h ch)"
    using Cons.prems c by (auto simp: fun_eq_iff)
  ultimately show ?case using c by (simp add: select_send_open)
qed

lemma registry_ok_open:
  "registry_ok s \<Longrightarrow> \<forall>ch \<in> set (clients s). \<exists>c. chans s ch = Some c \<and> \<not> closed c"
  by (auto simp: registry_ok_def chan_ok_def split: option.splits)

lemma broadcast_registry:
  assumes "registry_ok s"
  shows "broadcast (clients s) batch (chans s) =
           Inr (\<lambda>ch. if ch \<in> set (clients s) then map_option (enqueue batch) (chans s ch) else chans s ch)"
  using assms broadcast_open[OF _ registry_ok_open[OF assms]] by (simp add: registry_ok_def)

lemma registry_ok_broadcast:
  assumes "registry_ok s"
  shows "registry_ok (s\<lparr>chans := \<lambda>ch. if ch \<in> set (clients s) then map_option (enqueue batch) (chans s ch) else chans s ch\<rparr>)"
  using assms
  by (auto simp: registry_ok_def chan_ok_def enqueue_def split: option.splits)

lemma iteration_ok:
  assumes "registry_ok s"
  shows "\<exists>s'. iteration s raw = Inr s' \<and> registry_ok s' \<and> clients s' = clients s \<and>
           bootTime s' = bootTime s \<and> next_ref s' = next_ref s \<and> stopped s' = stopped s \<and>
           streamed s' = streamed s"
proof (cases "binary_Read raw")
  case (Inl err)
  with assms show ?thesis by (simp add: iteration_def)
next
  case (Inr e)
  with assms registry_ok_broadcast[OF assms] show ?thesis
    by (simp add: iteration_def broadcast_registry)
qed

lemma register_ok:
  assumes "registry_ok s"
  shows "registry_ok (register s)"
  using assms
  by (auto simp: registry_ok_def chan_ok_def register_def Let_def less_Suc_eq split: option.splits)

lemma unregister_ok:
  assumes "registry_ok s" "ch \<in> set (clients s)"
  shows "\<exists>s'. unregister s ch = Inr s' \<and> registry_ok s' \<and>
           clients s' = removeAll ch (clients s) \<and>
           (\<exists>c. chans s ch = Some c \<and> chans s' = (chans s)(ch \<mapsto> c\<lparr>closed := True\<rparr>)) \<and>
           bootTime s' = bootTime s \<and> next_ref s' = next_ref s \<and> stopped s' = stopped s \<and>
           streamed s' = streamed s \<and> unsent s' = unsent s"
proof -
  from assms obtain c where c: "chans s ch = Some c" "\<not> closed c"
    using registry_ok_open by blast
  then have "unregister s ch =
      Inr (s\<lparr>clients := removeAll ch (clients s), chans := (chans s)(ch \<mapsto> c\<lparr>closed := True\<rparr>)\<rparr>)"
    by (simp add: unregister_def close_chan_def Let_def)
  moreover have "registry_ok (s\<lparr>clients := removeAll ch (clients s), chans := (chans s)(ch \<mapsto> c\<lparr>closed := True\<rparr>)\<rparr>)"
    using assms by (auto simp: registry_ok_def chan_ok_def distinct_removeAll)
  ultimately show ?thesis using c by simp
qed

lemma session_recv_ok:
  assumes "registry_ok s"
  shows "registry_ok (session_recv s ch ok)"
  using assms
  by (auto simp: registry_ok_def chan_ok_def session_recv_def split: option.splits list.splits)

lemma session_recv_fields:
  "clients (session_recv s ch ok) = clients s \<and> bootTime (session_recv s ch ok) = bootTime s \<and>
   next_ref (session_recv s ch ok) = next_ref s \<and> stopped (session_recv s ch ok) = stopped s"
  by (simp add: session_recv_def split: option.splits list.splits)

lemma do_step_ok:
  assumes "registry_ok s"
  shows "\<exists>s'. do_step s a = Inr s' \<and> registry_ok s' \<and> bootTime s' = bootTime s"
proof (cases a)
  case (Read r)
  show ?thesis
  proof (cases r)
    case (Inl err)
    with Read assms show ?thesis by (simp add: registry_ok_def chan_ok_def)
  next
    case (Inr raw)
    with Read assms iteration_ok[OF assms, of raw] show ?thesis by auto
  qed
next
  case (Deliver ch)
  with assms show ?thesis by (simp add: session_recv_ok session_recv_fields)
next
  case (SendFails ch)
  with assms show ?thesis by (simp add: session_recv_ok session_recv_fields)
next
  case Join
  with assms show ?thesis by (simp add: register_ok) (simp add: register_def Let_def)
next
  case (Leave ch)
  with assms unregister_ok[OF assms, of ch] show ?thesis by auto
qed

lemma run_ok:
  "registry_ok s \<Longrightarrow> \<exists>s'. run s steps = Inr s' \<and> registry_ok s' \<and> bootTime s' = bootTime s"
proof (induction steps arbitrary: s)
  case Nil
  then show ?case by simp
next
  case (Cons a steps)
  from do_step_ok[OF Cons.prems, of a] obtain s1
    where s1: "do_step s a = Inr s1" "registry_ok s1" "bootTime s1 = bootTime s" by blast
  from Cons.IH[OF s1(2)] s1 show ?case by auto
qed

text \<open>
  The scenario of a queue of capacity 1 that is not drained: the first event is delivered,
  the following ones are dropped, and no send fails.
\<close>

lemma capacity_one_scenario:
  "broadcast [0] b1 [0 \<mapsto> \<lparr> buf = [], cap = 1, closed = False \<rparr>] =
     Inr [0 \<mapsto> \<lparr> buf = [b1], cap = 1, closed = False \<rparr>]"
  "broadcast [0] b2 [0 \<mapsto> \<lparr> buf = [b1], cap = 1, closed = False \<rparr>] =
     Inr [0 \<mapsto> \<lparr> buf = [b1], cap = 1, closed = False \<rparr>]"
  "broadcast [0] b3 [0 \<mapsto> \<lparr> buf = [b1], cap = 1, closed = False \<rparr>] =
     Inr [0 \<mapsto> \<lparr> buf = [b1], cap = 1, closed = False \<rparr>]"
  by (simp_all add: select_send_def)

lemma main_init_ok: "registry_ok (main_init now a b)"
  by (simp add: registry_ok_def main_init_def Let_def)

lemma run_append:
  "run s (xs @ ys) = (case run s xs of Inl p \<Rightarrow> Inl p | Inr s' \<Rightarrow> run s' ys)"
  by (induction xs arbitrary: s) (auto split: sum.splits)

subsection \<open>The order of delivery\<close>

lemma placed_iteration:
  assumes ok: "registry_ok s" and ch: "ch \<in> set (clients s)"
  shows "\<exists>s1. iteration s raw = Inr s1 \<and> registry_ok s1 \<and> clients s1 = clients s \<and>
           bootTime s1 = bootTime s \<and> stopped s1 = stopped s \<and>
           (case binary_Read raw of
              Inl err \<Rightarrow> placed s1 ch = placed s ch
            | Inr e \<Rightarrow> placed s1 ch =
                placed s ch @ (if has_room s ch then [batch_of (bootTime s) e] else []))"
proof (cases "binary_Read raw")
  case (Inl err)
  with ok show ?thesis by (simp add: iteration_def)
next
  case (Inr e)
  let ?b = "batch_of (bootTime s) e"
  let ?h = "\<lambda>ch. if ch \<in> set (clients s) then map_option (enqueue ?b) (chans s ch) else chans s ch"
  from ok ch obtain c where c: "chans s ch = Some c"
    using registry_ok_open by blast
  have it: "iteration s raw = Inr (s\<lparr>chans := ?h\<rparr>)"
    using Inr by (simp add: iteration_def broadcast_registry[OF ok])
  have "placed (s\<lparr>chans := ?h\<rparr>) ch = placed s ch @ (if has_room s ch then [?b] else [])"
    using ch c by (simp add: placed_def has_room_def enqueue_def)
  with it Inr registry_ok_broadcast[OF ok, of ?b] show ?thesis by simp
qed

lemma placed_session_recv:
  "unsent s ch' = None \<Longrightarrow> placed (session_recv s ch' ok) ch = placed s ch"
  by (auto simp: placed_def session_recv_def split: option.splits list.splits)


lemma placed_register:
  assumes "registry_ok s" "ch \<in> set (clients s)"
  shows "placed (register s) ch = placed s ch \<and> ch \<in> set (clients (register s))"
proof -
  from assms have "ch < next_ref s" by (simp add: registry_ok_def chan_ok_def)
  then show ?thesis using assms(2) by (simp add: placed_def register_def Let_def)
qed

lemma step_placed:
  assumes ok: "registry_ok s" and ch: "ch \<in> set (clients s)" and a: "a \<noteq> Leave ch"
  shows "\<exists>s1 d. do_step s a = Inr s1 \<and> registry_ok s1 \<and> ch \<in> set (clients s1) \<and>
           bootTime s1 = bootTime s \<and>
           placed s1 ch = placed s ch @ d \<and>
           (\<exists>new. decoded (bootTime s) (stopped s) (a # rest) =
                    new @ decoded (bootTime s) (stopped s1) rest \<and>
                  (d = [] \<or> d = new) \<and>
                  (never_full s ch (a # rest) \<longrightarrow> d = new \<and> never_full s1 ch rest))"
proof (cases a)
  case (Read r)
  show ?thesis
  proof (cases r)
    case (Inl err)
    with Read ok ch show ?thesis
      by (simp add: registry_ok_def chan_ok_def placed_def)
  next
    case (Inr raw)
    show ?thesis
    proof (cases "stopped s")
      case True
      with Read Inr ok ch show ?thesis by simp
    next
      case False
      from placed_iteration[OF ok ch, of raw] obtain s1 where
        s1: "iteration s raw = Inr s1" "registry_ok s1" "clients s1 = clients s"
            "bootTime s1 = bootTime s" "stopped s1 = stopped s"
        and pl: "case binary_Read raw of
              Inl err \<Rightarrow> placed s1 ch = placed s ch
            | Inr e \<Rightarrow> placed s1 ch =
                placed s ch @ (if has_room s ch then [batch_of (bootTime s) e] else [])"
        by blast
      show ?thesis
      proof (cases "binary_Read raw")
        case (Inl err)
        with Read Inr False s1 pl ch show ?thesis by simp
      next
        case Inr': (Inr e)
        with Read Inr False s1 pl ch show ?thesis by simp
      qed
    qed
  qed
next
  case (Deliver ch')
  with ok ch show ?thesis
    by (simp add: session_recv_ok session_recv_fields placed_session_recv)
next
  case (SendFails ch')
  with ok ch show ?thesis
    by (simp add: session_recv_ok session_recv_fields placed_session_recv)
next
  case Join
  with ok placed_register[OF ok ch] show ?thesis
    by (simp add: register_ok) (simp add: register_def Let_def)
next
  case (Leave ch')
  with a have ne: "ch' \<noteq> ch" by simp
  show ?thesis
  proof (cases "ch' \<in> set (clients s)")
    case True
    from unregister_ok[OF ok True] obtain s1 c where
      s1: "unregister s ch' = Inr s1" "registry_ok s1" "clients s1 = removeAll ch' (clients s)"
          "chans s1 = (chans s)(ch' \<mapsto> c\<lparr>closed := True\<rparr>)" "bootTime s1 = bootTime s"
          "stopped s1 = stopped s" "streamed s1 = streamed s" "unsent s1 = unsent s"
      by blast
    with Leave True ne ch show ?thesis by (simp add: placed_def)
  next
    case False
    with Leave ok ch show ?thesis by simp
  qed
qed

section \<open>Properties of the interleaving\<close>


lemma is_open_enqueue:
  "h ch = Some c \<Longrightarrow> is_open (h(ch \<mapsto> enqueue batch c)) ch' = is_open h ch'"
  by (auto simp: is_open_def enqueue_def)




lemma in_loop_pcs_simps [simp]:
  "S_none \<in> in_loop_pcs" "S_made \<in> in_loop_pcs" "S_reg_locked \<in> in_loop_pcs"
  "S_reg_inserted \<in> in_loop_pcs" "S_loop \<in> in_loop_pcs" "S_exit \<notin> in_loop_pcs"
  "S_unreg_locked \<notin> in_loop_pcs" "S_unreg_deleted \<notin> in_loop_pcs"
  "S_unreg_unlocked \<notin> in_loop_pcs" "S_closed \<notin> in_loop_pcs"
  by (simp_all add: in_loop_pcs_def)


lemma in_map_pcs_simps [simp]:
  "S_none \<notin> in_map_pcs" "S_made \<notin> in_map_pcs" "S_reg_locked \<notin> in_map_pcs"
  "S_reg_inserted \<in> in_map_pcs" "S_loop \<in> in_map_pcs" "S_exit \<in> in_map_pcs"
  "S_unreg_locked \<in> in_map_pcs" "S_unreg_deleted \<notin> in_map_pcs"
  "S_unreg_unlocked \<notin> in_map_pcs" "S_closed \<notin> in_map_pcs"
  by (simp_all add: in_map_pcs_def)

lemma locked_pcs_simps [simp]:
  "S_none \<notin> locked_pcs" "S_made \<notin> locked_pcs" "S_reg_locked \<in> locked_pcs"
  "S_reg_inserted \<in> locked_pcs" "S_loop \<notin> locked_pcs" "S_exit \<notin> locked_pcs"
  "S_unreg_locked \<in> locked_pcs" "S_unreg_deleted \<in> locked_pcs"
  "S_unreg_unlocked \<notin> locked_pcs" "S_closed \<notin> locked_pcs"
  by (simp_all add: locked_pcs_def)

lemma holds_lock_simps [simp]:
  "\<not> holds_lock B_read" "\<not> holds_lock (B_lock batch)" "holds_lock (B_range batch visited)"
  "holds_lock (B_send batch visited ch)" "\<not> holds_lock B_done"
  by (simp_all add: holds_lock_def)












subsection \<open>The delivery of one batch\<close>



lemma placed_chans_other:
  "ch' \<noteq> ch \<Longrightarrow> placed (s\<lparr>chans := (chans s)(ch' \<mapsto> c)\<rparr>) ch = placed s ch"
  by (simp add: placed_def)





subsection \<open>The registry in the interleaving\<close>





text \<open>
  A session that has deleted its channel from the map: whatever happens afterwards, nothing
  is placed in the channel any more.
\<close>

lemma out_pcs_simps [simp]:
  "S_none \<notin> out_pcs" "S_made \<notin> out_pcs" "S_reg_locked \<notin> out_pcs"
  "S_reg_inserted \<notin> out_pcs" "S_loop \<notin> out_pcs" "S_exit \<notin> out_pcs"
  "S_unreg_locked \<notin> out_pcs" "S_unreg_deleted \<in> out_pcs"
  "S_unreg_unlocked \<in> out_pcs" "S_closed \<in> out_pcs"
  by (simp_all add: out_pcs_def)




section \<open>The claims\<close>

text \<open>
  C5. The syscall identifiers 1, 2 and 3 are mapped to \<open>openat\<close>, \<open>write\<close> and \<open>rename\<close>,
  every other 32-bit identifier to \<open>unknown\<close>. The mapping is total, and a record of full
  length whose identifier field holds another value decodes to an event with the syscall
  name \<open>unknown\<close>.
\<close>

theorem syscallName_mapping:
  "syscallName 1 = ''openat'' \<and> syscallName 2 = ''write'' \<and> syscallName 3 = ''rename'' \<and>
   (i \<noteq> 1 \<and> i \<noteq> 2 \<and> i \<noteq> 3 \<longrightarrow> syscallName i = ''unknown'') \<and>
   (event_size \<le> length raw \<and> (le_word (field 32 4 raw) :: 32 word) \<notin> {1, 2, 3} \<longrightarrow>
      (\<exists>e. binary_Read raw = Inr e \<and> ev_Syscall (pbEvent boot e) = ''unknown''))"
proof -
  have "ev_Syscall (pbEvent boot (decode_fields (take event_size raw))) = ''unknown''"
    if "(le_word (field 32 4 raw) :: 32 word) \<notin> {1, 2, 3}"
  proof -
    have "field 32 4 (take event_size raw) = field 32 4 raw"
      by (rule field_take) (simp add: event_size_def)
    with that show ?thesis
      by (simp add: pbEvent_def decode_fields_def syscallName_def)
  qed
  then show ?thesis
    by (auto simp: syscallName_def binary_Read_long)
qed

theorem syscallName_mapping_witness:
  "syscallName 7 = ''unknown'' \<and>
   (\<exists>e. binary_Read (replicate 32 0 @ [7, 0, 0, 0] @ replicate 528 0) = Inr e \<and>
        ev_Syscall (pbEvent \<lparr>sec = 0, nsec = 0\<rparr> e) = ''unknown'')"
  using syscallName_mapping [of 7 "replicate 32 0 @ [7, 0, 0, 0] @ replicate 528 0"
      "\<lparr>sec = 0, nsec = 0\<rparr>"]
  by (simp add: event_size_def field_def)

text \<open>
  C1. In a state that satisfies the registry invariant, the broadcast of one batch returns
  without a panic; every registered subscriber whose queue holds fewer than 100 batches
  gets the batch appended to its queue, every registered subscriber whose queue is full
  keeps its queue as it was, and no other channel is touched. The function is total: there
  is nothing in it that waits. An iteration of the loop on a record that decodes is this
  broadcast. The invariant holds in the state \<open>main\<close> starts with and after every step of every
  run (\<open>main_init_ok\<close>, \<open>run_ok\<close>), so these are the registry states the loop meets.
\<close>

theorem broadcast_enqueues_or_drops:
  assumes "registry_ok s"
  shows "\<exists>h'. broadcast (clients s) batch (chans s) = Inr h' \<and>
           (\<forall>ch \<in> set (clients s). \<exists>c. chans s ch = Some c \<and> cap c = 100 \<and>
               (length (buf c) < 100 \<longrightarrow> h' ch = Some (c\<lparr>buf := buf c @ [batch]\<rparr>)) \<and>
               (\<not> length (buf c) < 100 \<longrightarrow> h' ch = Some c)) \<and>
           (\<forall>ch. ch \<notin> set (clients s) \<longrightarrow> h' ch = chans s ch) \<and>
           (\<forall>e. binary_Read raw = Inr e \<and> batch = batch_of (bootTime s) e \<longrightarrow>
               iteration s raw = Inr (s\<lparr>chans := h'\<rparr>))"
proof -
  let ?h = "\<lambda>ch. if ch \<in> set (clients s) then map_option (enqueue batch) (chans s ch) else chans s ch"
  have b: "broadcast (clients s) batch (chans s) = Inr ?h"
    by (rule broadcast_registry[OF assms])
  have "\<exists>c. chans s ch = Some c \<and> cap c = 100 \<and>
               (length (buf c) < 100 \<longrightarrow> ?h ch = Some (c\<lparr>buf := buf c @ [batch]\<rparr>)) \<and>
               (\<not> length (buf c) < 100 \<longrightarrow> ?h ch = Some c)"
    if "ch \<in> set (clients s)" for ch
  proof -
    from assms that obtain c where c: "chans s ch = Some c" "cap c = 100"
      by (auto simp: registry_ok_def chan_ok_def split: option.splits)
    with that show ?thesis by (simp add: enqueue_def)
  qed
  moreover have "\<forall>e. binary_Read raw = Inr e \<and> batch = batch_of (bootTime s) e \<longrightarrow>
               iteration s raw = Inr (s\<lparr>chans := ?h\<rparr>)"
    using b by (auto simp: iteration_def)
  ultimately show ?thesis using b by auto
qed

theorem broadcast_enqueues_or_drops_witness:
  "registry_ok \<lparr> clients = [0], bootTime = \<lparr>sec = 0, nsec = 0\<rparr>,
       chans = [0 \<mapsto> \<lparr> buf = replicate 100 \<lparr>Events = []\<rparr>, cap = 100, closed = False \<rparr>],
       streamed = (\<lambda>_. []), unsent = Map.empty, next_ref = 1, stopped = False \<rparr> \<and>
   (\<exists>h'. broadcast [0] \<lparr>Events = []\<rparr>
            [0 \<mapsto> \<lparr> buf = replicate 100 \<lparr>Events = []\<rparr>, cap = 100, closed = False \<rparr>] = Inr h' \<and>
         h' 0 = Some \<lparr> buf = replicate 100 \<lparr>Events = []\<rparr>, cap = 100, closed = False \<rparr>) \<and>
   registry_ok \<lparr> clients = [0], bootTime = \<lparr>sec = 0, nsec = 0\<rparr>,
       chans = [0 \<mapsto> \<lparr> buf = [], cap = 100, closed = False \<rparr>],
       streamed = (\<lambda>_. []), unsent = Map.empty, next_ref = 1, stopped = False \<rparr> \<and>
   (\<exists>h'. broadcast [0] \<lparr>Events = []\<rparr> [0 \<mapsto> \<lparr> buf = [], cap = 100, closed = False \<rparr>] = Inr h' \<and>
         h' 0 = Some \<lparr> buf = [\<lparr>Events = []\<rparr>], cap = 100, closed = False \<rparr>)"
proof -
  let ?b = "\<lparr>Events = []\<rparr>"
  let ?c = "\<lparr> buf = replicate 100 ?b, cap = 100, closed = False \<rparr>"
  let ?d = "\<lparr> buf = [], cap = 100, closed = False \<rparr>"
  let ?full = "\<lparr> clients = [0], bootTime = \<lparr>sec = 0, nsec = 0\<rparr>, chans = [0 \<mapsto> ?c],
       streamed = (\<lambda>_. []), unsent = Map.empty, next_ref = 1, stopped = False \<rparr>"
  let ?empty = "\<lparr> clients = [0], bootTime = \<lparr>sec = 0, nsec = 0\<rparr>, chans = [0 \<mapsto> ?d],
       streamed = (\<lambda>_. []), unsent = Map.empty, next_ref = 1, stopped = False \<rparr>"
  have f: "registry_ok ?full" by (simp add: registry_ok_def chan_ok_def)
  have e: "registry_ok ?empty" by (simp add: registry_ok_def chan_ok_def)
  from broadcast_enqueues_or_drops [OF f, of ?b "[]"]
  obtain h' where h: "broadcast (clients ?full) ?b (chans ?full) = Inr h'"
    and q: "\<forall>ch \<in> set (clients ?full). \<exists>c. chans ?full ch = Some c \<and> cap c = 100 \<and>
               (length (buf c) < 100 \<longrightarrow> h' ch = Some (c\<lparr>buf := buf c @ [?b]\<rparr>)) \<and>
               (\<not> length (buf c) < 100 \<longrightarrow> h' ch = Some c)"
    by blast
  from q have "h' 0 = Some ?c" by simp
  with h have 1: "\<exists>h'. broadcast [0] ?b [0 \<mapsto> ?c] = Inr h' \<and> h' 0 = Some ?c" by auto
  from broadcast_enqueues_or_drops [OF e, of ?b "[]"]
  obtain k' where k: "broadcast (clients ?empty) ?b (chans ?empty) = Inr k'"
    and r: "\<forall>ch \<in> set (clients ?empty). \<exists>c. chans ?empty ch = Some c \<and> cap c = 100 \<and>
               (length (buf c) < 100 \<longrightarrow> k' ch = Some (c\<lparr>buf := buf c @ [?b]\<rparr>)) \<and>
               (\<not> length (buf c) < 100 \<longrightarrow> k' ch = Some c)"
    by blast
  from r have "k' 0 = Some \<lparr> buf = [?b], cap = 100, closed = False \<rparr>" by simp
  with k have 2: "\<exists>h'. broadcast [0] ?b [0 \<mapsto> ?d] = Inr h' \<and>
      h' 0 = Some \<lparr> buf = [?b], cap = 100, closed = False \<rparr>" by auto
  from f 1 e 2 show ?thesis by blast
qed

text \<open>
  C3, as amended. The fixed size of the record is 564 bytes. Every input shorter than that
  fails to decode, and the iteration produces no event for it; every input of at least 564
  bytes decodes, from its first 564 bytes. The claim as stated (652 bytes, and failure for
  longer inputs as well) fails at the counterexample below.
\<close>

theorem binary_Read_length:
  "event_size = 564 \<and>
   (length data < event_size \<longrightarrow> isl (binary_Read data) \<and> iteration s data = Inr s) \<and>
   (event_size \<le> length data \<longrightarrow> binary_Read data = Inr (decode_fields (take event_size data)))"
proof -
  have "iteration s data = Inr s" if "length data < event_size"
    using binary_Read_short[OF that] by (cases "binary_Read data") (simp_all add: iteration_def)
  then show ?thesis
    by (simp add: binary_Read_short binary_Read_long) (simp add: event_size_def)
qed

theorem binary_Read_length_witness:
  "length [1, 2, 3 :: byte] < event_size \<and> isl (binary_Read [1, 2, 3]) \<and>
   event_size \<le> length (replicate 700 (0 :: byte)) \<and>
   binary_Read (replicate 700 0) = Inr (decode_fields (take event_size (replicate 700 0)))"
proof -
  have a: "length [1, 2, 3 :: byte] < event_size" by (simp add: event_size_def)
  have b: "event_size \<le> length (replicate 700 (0 :: byte))" by (simp add: event_size_def)
  from binary_Read_length [of "[1, 2, 3]"] binary_Read_length [of "replicate 700 0"] a b
  show ?thesis by blast
qed

theorem binary_Read_length_counterexample:
  "length (replicate 653 (0 :: byte)) \<noteq> 652 \<and> \<not> isl (binary_Read (replicate 653 0)) \<and>
   length (replicate 564 (0 :: byte)) \<noteq> 652 \<and> \<not> isl (binary_Read (replicate 564 0))"
  by (simp add: binary_Read_def event_size_def)

text \<open>
  C7. When the raw record does not decode, the iteration returns the state it was given, so
  that no queue changes, and the run goes on with the next step: removing such a record
  from a run, wherever it stands, does not change the outcome of the run.
\<close>

theorem decode_error_skips_record:
  assumes "isl (binary_Read raw)"
  shows "iteration s raw = Inr s \<and>
         run s (Read (Inr raw) # rest) = run s rest \<and>
         run s (pre @ Read (Inr raw) # rest) = run s (pre @ rest)"
proof -
  from assms have i: "iteration s' raw = Inr s'" for s'
    by (cases "binary_Read raw") (simp_all add: iteration_def)
  then have r: "run s' (Read (Inr raw) # rest) = run s' rest" for s'
    by simp
  then have "run s (pre @ Read (Inr raw) # rest) = run s (pre @ rest)"
    by (simp add: run_append split: sum.splits)
  with i r show ?thesis by simp
qed

theorem decode_error_skips_record_witness:
  "isl (binary_Read [1, 2, 3]) \<and>
   iteration (register (main_init \<lparr>sec = 0, nsec = 0\<rparr> 0 0)) [1, 2, 3] =
     Inr (register (main_init \<lparr>sec = 0, nsec = 0\<rparr> 0 0))"
proof -
  have h: "isl (binary_Read [1, 2, 3])" by (simp add: binary_Read_def event_size_def)
  from decode_error_skips_record [OF h, of "register (main_init \<lparr>sec = 0, nsec = 0\<rparr> 0 0)" "[]" "[]"] h
  show ?thesis by simp
qed

text \<open>
  C8, as amended. Unregistering a registered subscriber once removes its channel from the
  registry and closes it; deleting the key a second time would change nothing, but the
  deferred function as a whole is not idempotent: run a second time for the same channel
  it panics with a close of a closed channel. The claim as stated (a second call has the
  effect of one call and does not crash) fails at the counterexample below.
\<close>

theorem unregister_once:
  assumes "registry_ok s" "ch \<in> set (clients s)"
  shows "\<exists>s' c. unregister s ch = Inr s' \<and>
           ch \<notin> set (clients s') \<and> set (clients s') = set (clients s) - {ch} \<and>
           chans s ch = Some c \<and> chans s' = (chans s)(ch \<mapsto> c\<lparr>closed := True\<rparr>) \<and>
           removeAll ch (clients s') = clients s' \<and>
           unregister s' ch = Inl CloseOfClosedChannel"
proof -
  from unregister_ok[OF assms] obtain s' c where
    s': "unregister s ch = Inr s'" "clients s' = removeAll ch (clients s)"
        "chans s ch = Some c" "chans s' = (chans s)(ch \<mapsto> c\<lparr>closed := True\<rparr>)"
    by blast
  have "unregister s' ch = Inl CloseOfClosedChannel"
    using s'(4) by (simp add: unregister_def close_chan_def Let_def)
  with s' show ?thesis by auto
qed

theorem unregister_once_witness:
  "registry_ok (register (main_init \<lparr>sec = 0, nsec = 0\<rparr> 0 0)) \<and>
   0 \<in> set (clients (register (main_init \<lparr>sec = 0, nsec = 0\<rparr> 0 0))) \<and>
   (\<exists>s'. unregister (register (main_init \<lparr>sec = 0, nsec = 0\<rparr> 0 0)) 0 = Inr s' \<and>
         0 \<notin> set (clients s') \<and> unregister s' 0 = Inl CloseOfClosedChannel)"
proof -
  let ?one = "register (main_init \<lparr>sec = 0, nsec = 0\<rparr> 0 0)"
  have o: "registry_ok ?one" by (simp add: registry_ok_def chan_ok_def register_def main_init_def)
  have m: "0 \<in> set (clients ?one)" by (simp add: register_def main_init_def)
  from unregister_once [OF o m] o m show ?thesis by blast
qed

theorem unregister_twice_counterexample:
  "\<not> isl (unregister (register (main_init \<lparr>sec = 0, nsec = 0\<rparr> 0 0)) 0) \<and>
   unregister (projr (unregister (register (main_init \<lparr>sec = 0, nsec = 0\<rparr> 0 0)) 0)) 0
     = Inl CloseOfClosedChannel"
  by (simp add: unregister_def close_chan_def register_def main_init_def Let_def)

text \<open>
  C4. \<open>sanitizeString\<close> removes exactly the trailing zero bytes: the input is the trimmed
  string followed by zeros and the trimmed string does not end in a zero. The result is the
  trimmed string in which every maximal run of bytes that are not part of a well-formed
  UTF-8 sequence is replaced by one placeholder \<open>?\<close> and every well-formed sequence is kept
  as it is, in its place: the trimmed string is cut into \<open>utf8_tokens\<close>, which are its
  well-formed sequences (in the sense of the Unicode standard) and its single invalid
  bytes, in order, and the result is \<open>replace_runs\<close> of them. The trimmed string is valid
  UTF-8 exactly when it has no invalid byte, and then it is returned unchanged; when it is
  not, the first \<open>?\<close> stands where the first invalid byte stood; in every case the result is
  valid UTF-8. A record of full length always decodes, whatever its string fields hold, and
  its string fields are the sanitized ones.
\<close>

theorem sanitizeString_trims_and_replaces:
  "(\<exists>n. b = trimRightByte b 0 @ replicate n 0) \<and>
   (trimRightByte b 0 = [] \<or> last (trimRightByte b 0) \<noteq> 0) \<and>
   sanitizeString b = replace_runs [0x3F] (utf8_tokens (trimRightByte b 0)) \<and>
   concat (map token_bytes (utf8_tokens (trimRightByte b 0))) = trimRightByte b 0 \<and>
   (\<forall>bs. Text bs \<in> set (utf8_tokens (trimRightByte b 0)) \<longrightarrow> wf_seq bs) \<and>
   (ValidString (trimRightByte b 0) \<longleftrightarrow>
      (\<forall>tok \<in> set (utf8_tokens (trimRightByte b 0)). \<not> is_Invalid tok)) \<and>
   (ValidString (trimRightByte b 0) \<longrightarrow> sanitizeString b = trimRightByte b 0) \<and>
   (\<not> ValidString (trimRightByte b 0) \<longrightarrow>
      (\<exists>i t. i < length (trimRightByte b 0) \<and> ValidString (take i (trimRightByte b 0)) \<and>
             sanitizeString b = take i (trimRightByte b 0) @ [0x3F] @ t)) \<and>
   ValidString (sanitizeString b) \<and>
   (event_size \<le> length raw \<longrightarrow>
      (\<exists>e. binary_Read raw = Inr e \<and>
           ev_Comm (pbEvent boot e) = sanitizeString (field 16 16 raw) \<and>
           ev_Path (pbEvent boot e) = sanitizeString (field 52 256 raw) \<and>
           ev_NewPath (pbEvent boot e) = sanitizeString (field 308 256 raw)))"
proof -
  let ?s = "trimRightByte b 0"
  have 1: "\<exists>n. b = ?s @ replicate n 0" by (rule trimRightByte_replicate)
  have 2: "?s = [] \<or> last ?s \<noteq> 0" using trimRightByte_last[of b 0] by blast
  have 3: "ValidString ?s \<longrightarrow> sanitizeString b = ?s" by (simp add: sanitizeString_def)
  have 4: "\<exists>i t. i < length ?s \<and> ValidString (take i ?s) \<and> sanitizeString b = take i ?s @ [0x3F] @ t"
    if nv: "\<not> ValidString ?s"
  proof -
    from ToValidUTF8_replaces[OF nv, of "[0x3F]"] obtain i t
      where i: "ToValidUTF8_scan ?s = Some i" and eq: "ToValidUTF8 ?s [0x3F] = take i ?s @ [0x3F] @ t"
      by blast
    from scan_Some[OF i] have "i < length ?s" "ValidString (take i ?s)" by simp_all
    moreover have "sanitizeString b = take i ?s @ [0x3F] @ t"
      using nv eq by (simp add: sanitizeString_def)
    ultimately show ?thesis by blast
  qed
  have 5: "ValidString (sanitizeString b)"
    by (simp add: sanitizeString_def Let_def ToValidUTF8_valid ValidString_placeholder)
  have 6: "sanitizeString b = replace_runs [0x3F] (utf8_tokens ?s)"
    by (rule sanitizeString_spec)
  have 7: "concat (map token_bytes (utf8_tokens ?s)) = ?s" by (rule tokens_concat)
  have 8: "\<forall>bs. Text bs \<in> set (utf8_tokens ?s) \<longrightarrow> wf_seq bs" using tokens_wf by blast
  have 9: "ValidString ?s \<longleftrightarrow> (\<forall>tok \<in> set (utf8_tokens ?s). \<not> is_Invalid tok)"
    by (rule ValidString_tokens)
  from 1 2 3 4 5 6 7 8 9 pbEvent_strings[of raw boot] show ?thesis by blast
qed

theorem sanitizeString_trims_and_replaces_witness:
  "\<not> ValidString (trimRightByte [0x41, 0xFF, 0xFE, 0xC3, 0xA9, 0xE2, 0x82, 0x42, 0, 0] 0) \<and>
   sanitizeString [0x41, 0xFF, 0xFE, 0xC3, 0xA9, 0xE2, 0x82, 0x42, 0, 0] =
     [0x41, 0x3F, 0xC3, 0xA9, 0x3F, 0x42] \<and>
   ValidString (trimRightByte [0x2F, 0x61, 0, 0] 0) \<and>
   sanitizeString [0x2F, 0x61, 0, 0] = trimRightByte [0x2F, 0x61, 0, 0] 0 \<and>
   (\<exists>e. binary_Read (replicate 564 0xFF) = Inr e \<and>
        ev_Path (pbEvent \<lparr>sec = 0, nsec = 0\<rparr> e) = sanitizeString (field 52 256 (replicate 564 0xFF)))"
proof -
  let ?x = "[0x41, 0xFF, 0xFE, 0xC3, 0xA9, 0xE2, 0x82, 0x42, 0, 0] :: byte list"
  have a: "\<not> ValidString (trimRightByte ?x 0)" by code_simp
  have b: "ValidString (trimRightByte [0x2F, 0x61, 0, 0] 0)" by code_simp
  have c: "event_size \<le> length (replicate 564 (0xFF :: byte))" by (simp add: event_size_def)
  have d: "replace_runs [0x3F] (utf8_tokens (trimRightByte ?x 0)) = [0x41, 0x3F, 0xC3, 0xA9, 0x3F, 0x42]"
    by code_simp
  have "sanitizeString ?x = [0x41, 0x3F, 0xC3, 0xA9, 0x3F, 0x42]"
    using sanitizeString_trims_and_replaces [of ?x "replicate 564 0xFF" "\<lparr>sec = 0, nsec = 0\<rparr>"] d
    by simp
  then show ?thesis
    using a b c
      sanitizeString_trims_and_replaces [of "[0x2F, 0x61, 0, 0]" "replicate 564 0xFF" "\<lparr>sec = 0, nsec = 0\<rparr>"]
    by blast
qed

text \<open>
  C6, as amended. The absolute time of an event is the boot time plus the raw timestamp
  converted to a nanosecond duration. The conversion \<^verbatim>\<open>time.Duration(e.Ts)\<close> reads the 64 bits
  as a signed number: for a raw timestamp below 2^63 the absolute time is the boot time plus
  that many nanoseconds, and from 2^63 on it is the boot time plus the timestamp minus 2^64
  nanoseconds, a time before the boot time. The result is a normalised time again, it is
  what the event carries, and the boot time of every state of a run is the one computed in
  \<open>main\<close> before the loop starts, from the monotonic clock in wrapping 64-bit arithmetic. The
  absolute time is a function of the boot time and the raw timestamp alone. The claim as
  stated (for every raw timestamp, the boot time plus the timestamp) fails at the
  counterexample below, the raw timestamp 2^63.
\<close>

theorem eventTime_boot_plus_duration:
  assumes "0 \<le> nsec boot" "nsec boot < 1000000000"
  shows "UnixNano (eventTime boot ts) = UnixNano boot + sint ts \<and>
         0 \<le> nsec (eventTime boot ts) \<and> nsec (eventTime boot ts) < 1000000000 \<and>
         (ts < 2 ^ 63 \<longrightarrow> UnixNano (eventTime boot ts) = UnixNano boot + uint ts) \<and>
         (\<not> ts < 2 ^ 63 \<longrightarrow> UnixNano (eventTime boot ts) = UnixNano boot + uint ts - 2 ^ 64) \<and>
         ev_Ts (pbEvent boot e) = timestamppb_New (eventTime boot (Ts e)) \<and>
         (run (main_init now a b) steps = Inr s' \<longrightarrow>
            bootTime s' = bootTime (main_init now a b) \<and>
            bootTime s' = Time_Add now (sint (- (a * 1000000000 + b) * 1)))"
proof -
  have 1: "UnixNano (eventTime boot ts) = UnixNano boot + sint ts"
    by (simp add: eventTime_def Time_Add_UnixNano Duration_ns_sint)
  have 2: "0 \<le> nsec (eventTime boot ts) \<and> nsec (eventTime boot ts) < 1000000000"
    unfolding eventTime_def by (rule Time_Add_normal[OF assms])
  have 3: "ts < 2 ^ 63 \<longrightarrow> UnixNano (eventTime boot ts) = UnixNano boot + uint ts"
    using Duration_ns_small[of ts] by (simp add: eventTime_def Time_Add_UnixNano)
  have 4: "\<not> ts < 2 ^ 63 \<longrightarrow> UnixNano (eventTime boot ts) = UnixNano boot + uint ts - 2 ^ 64"
    using Duration_ns_large[of ts] by (simp add: eventTime_def Time_Add_UnixNano)
  have 5: "ev_Ts (pbEvent boot e) = timestamppb_New (eventTime boot (Ts e))"
    by (simp add: pbEvent_def)
  have 6: "bootTime s' = bootTime (main_init now a b) \<and>
           bootTime s' = Time_Add now (sint (- (a * 1000000000 + b) * 1))"
    if "run (main_init now a b) steps = Inr s'"
    using run_ok[OF main_init_ok, of now a b steps] that by (simp add: main_init_def Let_def)
  from 1 2 3 4 5 6 show ?thesis by blast
qed

theorem eventTime_boot_plus_duration_witness:
  "(0::int) \<le> nsec \<lparr>sec = 1700000000, nsec = 999999999\<rparr> \<and>
   nsec \<lparr>sec = 1700000000, nsec = 999999999\<rparr> < 1000000000 \<and> (5000000001 :: 64 word) < 2 ^ 63 \<and>
   UnixNano (eventTime \<lparr>sec = 1700000000, nsec = 999999999\<rparr> 5000000001) =
     UnixNano \<lparr>sec = 1700000000, nsec = 999999999\<rparr> + 5000000001 \<and>
   eventTime \<lparr>sec = 1700000000, nsec = 999999999\<rparr> 5000000001 = \<lparr>sec = 1700000006, nsec = 0\<rparr> \<and>
   \<not> (18446744073709551615 :: 64 word) < 2 ^ 63 \<and>
   UnixNano (eventTime \<lparr>sec = 1700000000, nsec = 999999999\<rparr> 18446744073709551615) =
     UnixNano \<lparr>sec = 1700000000, nsec = 999999999\<rparr> - 1 \<and>
   run (main_init \<lparr>sec = 1700000000, nsec = 0\<rparr> 100 5) [Join] =
     Inr (register (main_init \<lparr>sec = 1700000000, nsec = 0\<rparr> 100 5)) \<and>
   bootTime (register (main_init \<lparr>sec = 1700000000, nsec = 0\<rparr> 100 5)) =
     \<lparr>sec = 1699999899, nsec = 999999995\<rparr> \<and>
   run (main_init \<lparr>sec = 1700000000, nsec = 0\<rparr> 9223372037 0) [] =
     Inr (main_init \<lparr>sec = 1700000000, nsec = 0\<rparr> 9223372037 0) \<and>
   bootTime (main_init \<lparr>sec = 1700000000, nsec = 0\<rparr> 9223372037 0) =
     \<lparr>sec = 10923372036, nsec = 709551616\<rparr>"
proof -
  let ?t = "\<lparr>sec = 1700000000, nsec = 999999999\<rparr>"
  have a: "(0::int) \<le> nsec ?t" and b: "nsec ?t < 1000000000" by simp_all
  have c: "(5000000001 :: 64 word) < 2 ^ 63" by simp
  have c': "\<not> (18446744073709551615 :: 64 word) < 2 ^ 63" by simp
  have d: "eventTime ?t 5000000001 = \<lparr>sec = 1700000006, nsec = 0\<rparr>"
    by (simp add: eventTime_def Time_Add_def Duration_ns_def quot_def rem_def)
  have r: "run (main_init \<lparr>sec = 1700000000, nsec = 0\<rparr> 100 5) [Join] =
     Inr (register (main_init \<lparr>sec = 1700000000, nsec = 0\<rparr> 100 5))" by simp
  have t: "Time_Add \<lparr>sec = 1700000000, nsec = 0\<rparr> (sint (- (100 * 1000000000 + 5 :: 64 word) * 1)) =
      \<lparr>sec = 1699999899, nsec = 999999995\<rparr>"
    by (simp add: Time_Add_def quot_def rem_def)
  have w1: "UnixNano (eventTime ?t 5000000001) = UnixNano ?t + 5000000001"
    using eventTime_boot_plus_duration [OF a b, where ts = 5000000001] c by simp
  have w2: "UnixNano (eventTime ?t 18446744073709551615) = UnixNano ?t - 1"
    using eventTime_boot_plus_duration [OF a b, where ts = 18446744073709551615] c' by simp
  have w3: "bootTime (register (main_init \<lparr>sec = 1700000000, nsec = 0\<rparr> 100 5)) =
      Time_Add \<lparr>sec = 1700000000, nsec = 0\<rparr> (sint (- (100 * 1000000000 + 5 :: 64 word) * 1))"
    using eventTime_boot_plus_duration [OF a b, where now = "\<lparr>sec = 1700000000, nsec = 0\<rparr>"
        and a = 100 and b = 5 and steps = "[Join]"
        and s' = "register (main_init \<lparr>sec = 1700000000, nsec = 0\<rparr> 100 5)"] r
    by blast
  have r': "run (main_init \<lparr>sec = 1700000000, nsec = 0\<rparr> 9223372037 0) [] =
     Inr (main_init \<lparr>sec = 1700000000, nsec = 0\<rparr> 9223372037 0)" by simp
  have t': "Time_Add \<lparr>sec = 1700000000, nsec = 0\<rparr> (sint (- (9223372037 * 1000000000 + 0 :: 64 word) * 1)) =
      \<lparr>sec = 10923372036, nsec = 709551616\<rparr>"
    by (simp add: Time_Add_def quot_def rem_def)
  have w4: "bootTime (main_init \<lparr>sec = 1700000000, nsec = 0\<rparr> 9223372037 0) =
      Time_Add \<lparr>sec = 1700000000, nsec = 0\<rparr> (sint (- (9223372037 * 1000000000 + 0 :: 64 word) * 1))"
    using eventTime_boot_plus_duration [OF a b, where now = "\<lparr>sec = 1700000000, nsec = 0\<rparr>"
        and a = 9223372037 and b = 0 and steps = "[]"
        and s' = "main_init \<lparr>sec = 1700000000, nsec = 0\<rparr> 9223372037 0"] r'
    by blast
  from w1 w2 w3 w4 a b c c' d r r' t t' show ?thesis by simp
qed

theorem eventTime_boot_plus_duration_counterexample:
  "UnixNano (eventTime \<lparr>sec = 1700000000, nsec = 0\<rparr> 9223372036854775808) =
     UnixNano \<lparr>sec = 1700000000, nsec = 0\<rparr> - 9223372036854775808 \<and>
   UnixNano (eventTime \<lparr>sec = 1700000000, nsec = 0\<rparr> 9223372036854775808) \<noteq>
     UnixNano \<lparr>sec = 1700000000, nsec = 0\<rparr> + 9223372036854775808"
  by (simp add: UnixNano_def eventTime_def Time_Add_def Duration_ns_def quot_def rem_def)

text \<open>
  C10, as amended. For an input with a zero byte that is followed later by a non-zero byte,
  the result is not cut at that zero. It is the bytes before the zero, the zero itself and
  the bytes after it up to the last non-zero one, which are not empty; in both parts every
  maximal run of bytes that are not part of a well-formed UTF-8 sequence is replaced by one
  \<open>?\<close> and every well-formed sequence is kept as it is (each part is cut into
  \<open>utf8_tokens\<close>, its well-formed sequences and its single invalid bytes in order, and
  \<open>replace_runs\<close> rewrites them), so a part without invalid bytes is unchanged. The claim as stated (all bytes after the zero are retained) fails at the
  counterexample below.
\<close>

theorem sanitizeString_keeps_interior_zero:
  assumes "\<exists>y\<in>set ys. y \<noteq> 0"
  shows "sanitizeString (xs @ 0 # ys) =
           replace_runs [0x3F] (utf8_tokens xs) @ 0 #
             replace_runs [0x3F] (utf8_tokens (trimRightByte ys 0)) \<and>
         (\<exists>n. ys = trimRightByte ys 0 @ replicate n 0) \<and>
         trimRightByte ys 0 \<noteq> [] \<and> last (trimRightByte ys 0) \<noteq> 0 \<and>
         replace_runs [0x3F] (utf8_tokens (trimRightByte ys 0)) \<noteq> [] \<and>
         concat (map token_bytes (utf8_tokens xs)) = xs \<and>
         concat (map token_bytes (utf8_tokens (trimRightByte ys 0))) = trimRightByte ys 0 \<and>
         (\<forall>bs. Text bs \<in> set (utf8_tokens xs) \<union> set (utf8_tokens (trimRightByte ys 0)) \<longrightarrow>
               wf_seq bs) \<and>
         ((\<forall>tok \<in> set (utf8_tokens xs). \<not> is_Invalid tok) \<longrightarrow>
            replace_runs [0x3F] (utf8_tokens xs) = xs) \<and>
         ((\<forall>tok \<in> set (utf8_tokens (trimRightByte ys 0)). \<not> is_Invalid tok) \<longrightarrow>
            replace_runs [0x3F] (utf8_tokens (trimRightByte ys 0)) = trimRightByte ys 0)"
proof -
  let ?r = "[0x3F] :: byte list"
  from trimRightByte_app[OF assms, of "xs @ [0]"]
  have t: "trimRightByte (xs @ 0 # ys) 0 = xs @ 0 # trimRightByte ys 0"
    and ne: "trimRightByte ys 0 \<noteq> []" by simp_all
  have "sanitizeString (xs @ 0 # ys) =
          ToValidUTF8_loop xs ?r False @ 0 # ToValidUTF8_loop (trimRightByte ys 0) ?r False"
    by (simp add: sanitizeString_loop t loop_zero)
  then have 1: "sanitizeString (xs @ 0 # ys) =
      replace_runs ?r (utf8_tokens xs) @ 0 # replace_runs ?r (utf8_tokens (trimRightByte ys 0))"
    by (simp add: loop_tokens)
  have 2: "\<exists>n. ys = trimRightByte ys 0 @ replicate n 0" by (rule trimRightByte_replicate)
  have 3: "last (trimRightByte ys 0) \<noteq> 0" using ne by (rule trimRightByte_last)
  have "ToValidUTF8_loop (trimRightByte ys 0) ?r False \<noteq> []"
    using ne by (simp add: loop_nonempty)
  then have 4: "replace_runs ?r (utf8_tokens (trimRightByte ys 0)) \<noteq> []"
    by (simp add: loop_tokens)
  have 5: "(\<forall>tok \<in> set (utf8_tokens s). \<not> is_Invalid tok) \<longrightarrow>
      replace_runs ?r (utf8_tokens s) = s" for s
    by (simp add: replace_runs_no_Invalid tokens_concat)
  have 6: "concat (map token_bytes (utf8_tokens s)) = s" for s by (rule tokens_concat)
  have 7: "\<forall>bs. Text bs \<in> set (utf8_tokens xs) \<union> set (utf8_tokens (trimRightByte ys 0)) \<longrightarrow>
               wf_seq bs"
    using tokens_wf by blast
  from 1 2 ne 3 4 5 6 7 show ?thesis by blast
qed

theorem sanitizeString_keeps_interior_zero_witness:
  "(\<exists>y\<in>set [0xFF, 0xFE, 0x42, 0 :: byte]. y \<noteq> 0) \<and>
   sanitizeString ([0x41, 0xC0] @ 0 # [0xFF, 0xFE, 0x42, 0]) = [0x41, 0x3F, 0, 0x3F, 0x42]"
proof -
  have h: "\<exists>y\<in>set [0xFF, 0xFE, 0x42, 0 :: byte]. y \<noteq> 0" by simp
  have a: "replace_runs [0x3F] (utf8_tokens [0x41, 0xC0]) = [0x41, 0x3F]" by code_simp
  have b: "replace_runs [0x3F] (utf8_tokens (trimRightByte [0xFF, 0xFE, 0x42, 0] 0)) = [0x3F, 0x42]"
    by code_simp
  from sanitizeString_keeps_interior_zero [OF h, of "[0x41, 0xC0]"] a b h show ?thesis by simp
qed

theorem sanitizeString_interior_zero_counterexample:
  "sanitizeString [0x41, 0, 0xFF, 0x42] = [0x41, 0, 0x3F, 0x42]"
  by code_simp

text \<open>
  C2. In every run from a state that satisfies the registry invariant, with any
  interleaving of reads, deliveries by sessions, sends on a stream that fail, new
  subscribers and departures of other subscribers, a subscriber that stays registered has
  had placed in its queue a subsequence of the decoded batches, in decode order: every
  decoded event at most once and none out of order. When no send of a decoded event finds
  its queue full, it is the whole sequence of decoded batches. What was placed in the queue
  is what the session has forwarded to its stream, the batch that it took from the channel
  and failed to send, and what is pending in the channel. The steps of a run are atomic;
  operations on different channels commute, so this loses no interleaving of the channel
  operations themselves.
\<close>

theorem queue_is_subsequence_of_decoded:
  assumes "registry_ok s" "ch \<in> set (clients s)" "Leave ch \<notin> set steps"
  shows "\<exists>s' ds. run s steps = Inr s' \<and> ch \<in> set (clients s') \<and>
           placed s' ch = placed s ch @ ds \<and>
           subseq ds (decoded (bootTime s) (stopped s) steps) \<and>
           (never_full s ch steps \<longrightarrow> ds = decoded (bootTime s) (stopped s) steps)"
  using assms
proof (induction steps arbitrary: s)
  case Nil
  then show ?case by simp
next
  case (Cons a steps)
  from Cons.prems have a: "a \<noteq> Leave ch" and rest: "Leave ch \<notin> set steps" by auto
  from step_placed[OF Cons.prems(1,2) a, of steps] obtain s1 d new where
    s1: "do_step s a = Inr s1" "registry_ok s1" "ch \<in> set (clients s1)"
        "bootTime s1 = bootTime s" "placed s1 ch = placed s ch @ d"
    and dec: "decoded (bootTime s) (stopped s) (a # steps) =
                new @ decoded (bootTime s) (stopped s1) steps"
    and d: "d = [] \<or> d = new"
    and nf: "never_full s ch (a # steps) \<longrightarrow> d = new \<and> never_full s1 ch steps"
    by blast
  from Cons.IH[OF s1(2,3) rest] obtain s' ds where
    s': "run s1 steps = Inr s'" "ch \<in> set (clients s')" "placed s' ch = placed s1 ch @ ds"
        "subseq ds (decoded (bootTime s1) (stopped s1) steps)"
        "never_full s1 ch steps \<longrightarrow> ds = decoded (bootTime s1) (stopped s1) steps"
    by blast
  have "subseq (d @ ds) (new @ decoded (bootTime s) (stopped s1) steps)"
  proof (cases "d = []")
    case True
    with s'(4) s1(4) show ?thesis by (simp add: subseq_drop_many)
  next
    case False
    with d have "d = new" by simp
    with s'(4) s1(4) show ?thesis by (simp add: subseq_append')
  qed
  with s1 s' dec nf show ?case by (auto simp del: never_full.simps decoded.simps)
qed

theorem queue_is_subsequence_of_decoded_witness:
  "registry_ok (register (main_init \<lparr>sec = 0, nsec = 0\<rparr> 0 0)) \<and>
   0 \<in> set (clients (register (main_init \<lparr>sec = 0, nsec = 0\<rparr> 0 0))) \<and>
   Leave 0 \<notin> set [Read (Inr (replicate 8 0 @ [1, 0, 0, 0] @ replicate 552 0)), Read (Inr [1, 2, 3]),
      SendFails 0, Read (Inr (replicate 8 0 @ [2, 0, 0, 0] @ replicate 552 0)), Deliver 0, Join, Leave 1] \<and>
   never_full (register (main_init \<lparr>sec = 0, nsec = 0\<rparr> 0 0)) 0
     [Read (Inr (replicate 8 0 @ [1, 0, 0, 0] @ replicate 552 0)), Read (Inr [1, 2, 3]),
      SendFails 0, Read (Inr (replicate 8 0 @ [2, 0, 0, 0] @ replicate 552 0)), Deliver 0, Join, Leave 1] \<and>
   (\<exists>s' e1 e2. run (register (main_init \<lparr>sec = 0, nsec = 0\<rparr> 0 0))
           [Read (Inr (replicate 8 0 @ [1, 0, 0, 0] @ replicate 552 0)), Read (Inr [1, 2, 3]),
            SendFails 0, Read (Inr (replicate 8 0 @ [2, 0, 0, 0] @ replicate 552 0)), Deliver 0, Join,
            Leave 1] = Inr s' \<and>
         binary_Read (replicate 8 0 @ [1, 0, 0, 0] @ replicate 552 0) = Inr e1 \<and>
         binary_Read (replicate 8 0 @ [2, 0, 0, 0] @ replicate 552 0) = Inr e2 \<and>
         Pid e1 = 1 \<and> Pid e2 = 2 \<and>
         placed s' 0 = [batch_of \<lparr>sec = 0, nsec = 0\<rparr> e1, batch_of \<lparr>sec = 0, nsec = 0\<rparr> e2] \<and>
         streamed s' 0 = [] \<and> unsent s' 0 = Some (batch_of \<lparr>sec = 0, nsec = 0\<rparr> e1))"
proof -
  let ?t = "\<lparr>sec = 0, nsec = 0\<rparr>"
  let ?s = "register (main_init ?t 0 0)"
  define r1 :: "byte list" where "r1 = replicate 8 0 @ [1, 0, 0, 0] @ replicate 552 0"
  define r2 :: "byte list" where "r2 = replicate 8 0 @ [2, 0, 0, 0] @ replicate 552 0"
  let ?steps = "[Read (Inr r1), Read (Inr [1, 2, 3]), SendFails 0, Read (Inr r2), Deliver 0, Join, Leave 1]"
  define e1 where "e1 = decode_fields (take event_size r1)"
  define e2 where "e2 = decode_fields (take event_size r2)"
  have r1: "binary_Read r1 = Inr e1" unfolding e1_def
    by (rule binary_Read_long) (simp add: event_size_def r1_def)
  have r2: "binary_Read r2 = Inr e2" unfolding e2_def
    by (rule binary_Read_long) (simp add: event_size_def r2_def)
  have r3: "binary_Read [1, 2, 3] = Inl ErrUnexpectedEOF" by (simp add: binary_Read_def event_size_def)
  have p: "Pid e1 = 1" "Pid e2 = 2"
    by (simp_all add: e1_def e2_def r1_def r2_def decode_fields_def field_def event_size_def)
  have bt: "bootTime ?s = ?t"
    by (simp add: register_def main_init_def Let_def Time_Add_def quot_def rem_def)
  have a: "registry_ok ?s" by (simp add: registry_ok_def chan_ok_def register_def main_init_def)
  have b: "0 \<in> set (clients ?s)" by (simp add: register_def main_init_def)
  have c: "Leave 0 \<notin> set ?steps" by simp
  have st: "stopped ?s = False" by (simp add: register_def main_init_def)
  have pl: "placed ?s 0 = []" by (simp add: placed_def register_def main_init_def)
  have d: "never_full ?s 0 ?steps"
    by (simp add: r1 r2 r3 register_def main_init_def Let_def has_room_def
        iteration_def select_send_def session_recv_def unregister_def close_chan_def)
  have dec: "decoded ?t False ?steps = [batch_of ?t e1, batch_of ?t e2]"
    by (simp add: r1 r2 r3)
  from queue_is_subsequence_of_decoded [OF a b c] d
  obtain s' where s': "run ?s ?steps = Inr s'" "placed s' 0 = placed ?s 0 @ decoded (bootTime ?s) (stopped ?s) ?steps"
    by blast
  then have "placed s' 0 = [batch_of ?t e1, batch_of ?t e2]" using pl bt st dec by simp
  moreover have "streamed s' 0 = [] \<and> unsent s' 0 = Some (batch_of ?t e1)"
    using s'(1)
    by (simp add: r1 r2 r3 register_def main_init_def Let_def
        iteration_def select_send_def session_recv_def unregister_def close_chan_def
        Time_Add_def quot_def rem_def, auto)
  ultimately have "registry_ok ?s \<and> 0 \<in> set (clients ?s) \<and> Leave 0 \<notin> set ?steps \<and> never_full ?s 0 ?steps \<and>
    (\<exists>s' e1 e2. run ?s ?steps = Inr s' \<and> binary_Read r1 = Inr e1 \<and> binary_Read r2 = Inr e2 \<and>
         Pid e1 = 1 \<and> Pid e2 = 2 \<and>
         placed s' 0 = [batch_of ?t e1, batch_of ?t e2] \<and>
         streamed s' 0 = [] \<and> unsent s' 0 = Some (batch_of ?t e1))"
    using a b c d s'(1) r1 r2 p by blast
  then show ?thesis unfolding r1_def r2_def .
qed



end
